theory Spec2Isabelle
  imports Main "HOL-Library.Word"
begin

section \<open>Python values used by the package operation clients\<close>

text \<open>
  The development embeds the two package operation clients of the SDK:
  \<^verbatim>\<open>OperationClient\<close> of \<^verbatim>\<open>f5sdk/bigip/extension/package/operation.py\<close> (the current
  client) and \<^verbatim>\<open>Operation\<close> of \<^verbatim>\<open>f5cloudsdk/bigip/toolchain/package/__init__.py\<close>
  (the legacy client). Python strings are \<^typ>\<open>string\<close>, the content of a file opened in
  binary mode is a list of bytes, the offsets of the upload are \<^typ>\<open>int\<close>, the counter
  of the polling loop, which starts at 0 and only grows, is \<^typ>\<open>nat\<close>, and every
  \<^verbatim>\<open>raise\<close> is a value of the type \<open>error\<close> on the left of a sum:
  \<open>TransportError\<close> is what \<^verbatim>\<open>make_request\<close> raises, \<open>Exception\<close> is
  \<^verbatim>\<open>raise Exception(message)\<close>, \<open>AttributeError\<close> is an attribute looked up on
  \<^verbatim>\<open>None\<close>, and \<open>FileNotFoundError\<close> is \<^verbatim>\<open>open\<close> of a path with no file.
\<close>

type_synonym byte = "8 word"

datatype error =
    TransportError string
  | Exception string
  | AttributeError
  | FileNotFoundError

text \<open>
  \<^verbatim>\<open>'%s' % n\<close> and \<^verbatim>\<open>str(n)\<close> of an integer: its decimal digits, with a minus sign
  for a negative number.
\<close>

definition digit_char :: "nat \<Rightarrow> char" where
  "digit_char d = ''0123456789'' ! d"

fun str_nat :: "nat \<Rightarrow> string" where
  "str_nat n = (if n < 10 then [digit_char n] else str_nat (n div 10) @ [digit_char (n mod 10)])"

declare str_nat.simps [simp del]

definition str :: "int \<Rightarrow> string" where
  "str i = (if i < 0 then CHR ''-'' # str_nat (nat (- i)) else str_nat (nat i))"

text \<open>\<^verbatim>\<open>s.split(sep)\<close> for a separator of one character; the result is never empty.\<close>

fun split :: "char \<Rightarrow> string \<Rightarrow> string list" where
  "split sep [] = [[]]"
| "split sep (c # cs) =
     (if c = sep then [] # split sep cs
      else (case split sep cs of
              [] \<Rightarrow> [[c]]
            | w # ws \<Rightarrow> (c # w) # ws))"

section \<open>The management client\<close>

text \<open>
  \<^verbatim>\<open>make_request(uri, method=, headers=, body=, body_content_type=)\<close> sends one HTTP
  request and returns the decoded JSON response, or raises on a connection failure or a
  status that is not 2xx. The keyword arguments of a call are the fields of \<open>request\<close>
  (\<^verbatim>\<open>method\<close>, here \<open>http_method\<close>, defaults to \<^verbatim>\<open>'GET'\<close>, \<^verbatim>\<open>body_content_type\<close> to \<^verbatim>\<open>'json'\<close>).
  The device is the environment: its answer to the \<open>k\<close>-th request of a run is
  \<open>script k\<close>, and \<open>log\<close> holds the requests sent so far, in order.

  The keys the clients read from a response are the fields of \<open>response\<close>; the
  packages of a \<^verbatim>\<open>queryResponse\<close> are records with the key \<^verbatim>\<open>packageName\<close>.
\<close>

datatype body = BytesBody "byte list" | DictBody "(string \<times> string) list"

record request =
  uri :: string
  http_method :: string
  headers :: "(string \<times> string) list"
  body :: "body option"
  body_content_type :: string

record package =
  packageName :: string

record response =
  id_key :: string
  status :: string
  errorMessage :: string
  queryResponse :: "package list"

record management_client =
  script :: "nat \<Rightarrow> error + response"
  log :: "request list"

definition make_request ::
  "management_client \<Rightarrow> request \<Rightarrow> (error + response) \<times> management_client" where
  "make_request c req = (script c (length (log c)), c\<lparr>log := log c @ [req]\<rparr>)"

section \<open>Local files\<close>

text \<open>
  The local file system maps a path to the content of the file there. A file object is
  the content and the read position; \<^verbatim>\<open>read()\<close> returns what is left,
  \<^verbatim>\<open>read(n)\<close> at most \<open>n\<close> bytes of it, and both advance the position.
\<close>

type_synonym filesystem = "string \<rightharpoonup> byte list"

record file_object =
  content :: "byte list"
  pos :: nat

definition open_rb :: "filesystem \<Rightarrow> string \<Rightarrow> error + file_object" where
  "open_rb fs file_name =
     (case fs file_name of
        None \<Rightarrow> Inl FileNotFoundError
      | Some data \<Rightarrow> Inr \<lparr>content = data, pos = 0\<rparr>)"

definition read_all :: "file_object \<Rightarrow> byte list \<times> file_object" where
  "read_all f = (drop (pos f) (content f), f\<lparr>pos := max (pos f) (length (content f))\<rparr>)"

definition read_n :: "nat \<Rightarrow> file_object \<Rightarrow> byte list \<times> file_object" where
  "read_n n f =
     (take n (drop (pos f) (content f)),
      f\<lparr>pos := pos f + length (take n (drop (pos f) (content f)))\<rparr>)"

definition seek :: "nat \<Rightarrow> file_object \<Rightarrow> file_object" where
  "seek p f = f\<lparr>pos := p\<rparr>"

definition os_remove :: "filesystem \<Rightarrow> string \<Rightarrow> filesystem" where
  "os_remove fs file_name = fs(file_name := None)"

section \<open>Chunked upload: \<^verbatim>\<open>OperationClient._upload_rpm\<close>\<close>

definition max_chunk :: nat where
  "max_chunk = 1024 * 1024"

definition upload_uri :: "string \<Rightarrow> string" where
  "upload_uri file_name = ''/mgmt/shared/file-transfer/uploads/'' @ last (split CHR ''/'' file_name)"

definition upload_headers :: "int \<Rightarrow> int \<Rightarrow> int \<Rightarrow> (string \<times> string) list" where
  "upload_headers start_index end file_size =
     [(''Content-Range'', str start_index @ ''-'' @ str (end - 1) @ ''/'' @ str file_size),
      (''Content-Length'', str end),
      (''Content-Type'', ''application/octet-stream'')]"

text \<open>
  The \<^verbatim>\<open>while True\<close> loop of \<^verbatim>\<open>_upload_rpm\<close>: the state is the management client,
  the file object and \<^verbatim>\<open>start_index\<close>. It ends at the first empty read, or with the
  error of the first request that raises.
\<close>

function upload_loop ::
  "management_client \<Rightarrow> string \<Rightarrow> int \<Rightarrow> file_object \<Rightarrow> int \<Rightarrow> (error + unit) \<times> management_client"
where
  "upload_loop c u file_size file_obj start_index =
     (case read_n max_chunk file_obj of
        (file_slice, file_obj') \<Rightarrow>
          if file_slice = [] then (Inr (), c)
          else
            (let slice_size = int (length file_slice);
                 end = (if slice_size < int max_chunk then file_size else start_index + slice_size)
             in case make_request c
                  \<lparr>uri = u, http_method = ''POST'',
                   headers = upload_headers start_index end file_size,
                   body = Some (BytesBody file_slice), body_content_type = ''raw''\<rparr> of
                  (Inl e, c') \<Rightarrow> (Inl e, c')
                | (Inr _, c') \<Rightarrow> upload_loop c' u file_size file_obj' (start_index + slice_size)))"
  by pat_completeness auto
termination
  by (relation "measure (\<lambda>(c, u, file_size, f, start_index). length (content f) - pos f)")
     (auto simp: read_n_def)

declare upload_loop.simps [simp del]

definition upload_rpm ::
  "management_client \<Rightarrow> filesystem \<Rightarrow> string \<Rightarrow> bool
     \<Rightarrow> (error + unit) \<times> management_client \<times> filesystem" where
  "upload_rpm c fs file_name delete_file =
     (case open_rb fs file_name of
        Inl e \<Rightarrow> (Inl e, c, fs)
      | Inr file_obj \<Rightarrow>
          (case read_all file_obj of
             (whole, file_obj1) \<Rightarrow>
               (case upload_loop c (upload_uri file_name) (int (length whole))
                       (seek 0 file_obj1) 0 of
                  (Inl e, c') \<Rightarrow> (Inl e, c', fs)
                | (Inr _, c') \<Rightarrow>
                    (Inr (), c', if delete_file then os_remove fs file_name else fs))))"

section \<open>Task polling: \<^verbatim>\<open>OperationClient._check_rpm_task_status\<close>\<close>

definition PKG_MGMT_URI :: string where
  "PKG_MGMT_URI = ''/mgmt/shared/iapp/package-management-tasks''"

definition max_count :: nat where
  "max_count = 120"

text \<open>\<^verbatim>\<open>make_request(uri)\<close> with every keyword argument at its default.\<close>

definition get_request :: "string \<Rightarrow> request" where
  "get_request u =
     \<lparr>uri = u, http_method = ''GET'', headers = [], body = None, body_content_type = ''json''\<rparr>"

text \<open>\<^verbatim>\<open>make_request(uri, method='POST', body=body)\<close> with a dictionary as body.\<close>

definition post_request :: "string \<Rightarrow> (string \<times> string) list \<Rightarrow> request" where
  "post_request u b =
     \<lparr>uri = u, http_method = ''POST'', headers = [], body = Some (DictBody b),
      body_content_type = ''json''\<rparr>"

text \<open>
  The polling loop; its state is the management client and \<^verbatim>\<open>count\<close>. The
  \<^verbatim>\<open>time.sleep(sleep_secs)\<close> between two polls changes no value and is left out.
\<close>

function check_loop ::
  "management_client \<Rightarrow> string \<Rightarrow> nat \<Rightarrow> (error + response) \<times> management_client"
where
  "check_loop c status_link_uri count =
     (case make_request c (get_request status_link_uri) of
        (Inl e, c') \<Rightarrow> (Inl e, c')
      | (Inr response, c') \<Rightarrow>
          if status response = ''FINISHED'' then (Inr response, c')
          else if status response = ''FAILED'' then (Inl (Exception (errorMessage response)), c')
          else if count > max_count then (Inl (Exception ''Max count exceeded''), c')
          else check_loop c' status_link_uri (count + 1))"
  by pat_completeness auto
termination
  by (relation "measure (\<lambda>(c, u, count). Suc max_count - count)") auto

declare check_loop.simps [simp del]

definition check_rpm_task_status ::
  "management_client \<Rightarrow> string \<Rightarrow> (error + response) \<times> management_client" where
  "check_rpm_task_status c task_id = check_loop c (PKG_MGMT_URI @ ''/'' @ task_id) 0"

section \<open>Install and uninstall tasks\<close>

definition install_rpm ::
  "management_client \<Rightarrow> string \<Rightarrow> (error + unit) \<times> management_client" where
  "install_rpm c package_path =
     (case make_request c
             (post_request PKG_MGMT_URI
                [(''operation'', ''INSTALL''), (''packageFilePath'', package_path)]) of
        (Inl e, c') \<Rightarrow> (Inl e, c')
      | (Inr response, c') \<Rightarrow>
          (case check_rpm_task_status c' (id_key response) of
             (Inl e, c'') \<Rightarrow> (Inl e, c'')
           | (Inr _, c'') \<Rightarrow> (Inr (), c'')))"

definition uninstall_rpm ::
  "management_client \<Rightarrow> string \<Rightarrow> (error + unit) \<times> management_client" where
  "uninstall_rpm c package_name =
     (case make_request c
             (post_request PKG_MGMT_URI
                [(''operation'', ''UNINSTALL''), (''packageName'', package_name)]) of
        (Inl e, c') \<Rightarrow> (Inl e, c')
      | (Inr response, c') \<Rightarrow>
          (case check_rpm_task_status c' (id_key response) of
             (Inl e, c'') \<Rightarrow> (Inl e, c'')
           | (Inr _, c'') \<Rightarrow> (Inr (), c'')))"

section \<open>The operation client and its metadata\<close>

text \<open>
  The metadata client is a collaborator outside this module; its methods take no
  argument, so the record holds what each of them returns. A dependency of a component
  has the keys \<^verbatim>\<open>versions\<close> (constraints with the keys \<^verbatim>\<open>version\<close> and
  \<^verbatim>\<open>operation\<close>) and \<^verbatim>\<open>uninstallDocumentation\<close>; the dictionary of dependencies
  is a list of items in iteration order. The logger is \<^verbatim>\<open>None\<close> unless the caller
  passed one; a logger collects the warnings it is given.
  \<^verbatim>\<open>misc_utils.compare_versions\<close> is outside this module as well and is a parameter
  \<open>compare_versions\<close> of the functions that call it.
\<close>

record constraint =
  version_key :: string
  operation_key :: string

record dependency =
  versions :: "constraint list"
  uninstallDocumentation :: string

record metadata_client =
  get_package_name :: string
  get_component_package_name :: string
  get_latest_version :: string
  get_component_dependencies :: "(string \<times> dependency) list"

record logger_obj =
  warnings :: "string list"

definition warning :: "logger_obj \<Rightarrow> string \<Rightarrow> logger_obj" where
  "warning lg msg = lg\<lparr>warnings := warnings lg @ [msg]\<rparr>"

record operation_client =
  logger :: "logger_obj option"
  client :: management_client
  metadata :: metadata_client
  component :: string
  version :: string

text \<open>
  \<^verbatim>\<open>OperationClient.__init__\<close>: \<open>kwargs_logger\<close> is the keyword argument
  \<^verbatim>\<open>logger\<close>, \<open>None\<close> when the caller leaves it out
  (\<^verbatim>\<open>kwargs.pop('logger', None)\<close>).
\<close>

definition new_operation_client ::
  "management_client \<Rightarrow> string \<Rightarrow> string \<Rightarrow> metadata_client \<Rightarrow> logger_obj option
     \<Rightarrow> operation_client" where
  "new_operation_client c component_arg version_arg metadata_arg kwargs_logger =
     \<lparr>logger = kwargs_logger, client = c, metadata = metadata_arg,
      component = component_arg, version = version_arg\<rparr>"

definition dependency_msg :: "string \<Rightarrow> dependency \<Rightarrow> string" where
  "dependency_msg name dep =
     ''A component package dependency has not been removed: '' @ name @
     '' See documentation for more details: '' @ uninstallDocumentation dep"

text \<open>
  The \<^verbatim>\<open>for\<close> loop of \<^verbatim>\<open>_check_for_dependency\<close> over the items of the dictionary.
  \<^verbatim>\<open>self.logger.warning(msg)\<close> raises \<^verbatim>\<open>AttributeError\<close> when the logger is
  \<^verbatim>\<open>None\<close>.
\<close>

fun check_dependencies ::
  "(string \<Rightarrow> string \<Rightarrow> string \<Rightarrow> bool) \<Rightarrow> string \<Rightarrow> logger_obj option
     \<Rightarrow> (string \<times> dependency) list \<Rightarrow> (error + unit) \<times> logger_obj option"
where
  "check_dependencies compare_versions v lg [] = (Inr (), lg)"
| "check_dependencies compare_versions v lg ((name, dep) # rest) =
     (let matches = filter (\<lambda>i. compare_versions v (version_key i) (operation_key i))
                      (versions dep)
      in if length matches = length (versions dep) then
           (case lg of
              None \<Rightarrow> (Inl AttributeError, lg)
            | Some l \<Rightarrow>
                check_dependencies compare_versions v
                  (Some (warning l (dependency_msg name dep))) rest)
         else check_dependencies compare_versions v lg rest)"

definition check_for_dependency ::
  "(string \<Rightarrow> string \<Rightarrow> string \<Rightarrow> bool) \<Rightarrow> operation_client
     \<Rightarrow> (error + unit) \<times> operation_client" where
  "check_for_dependency compare_versions self =
     (case check_dependencies compare_versions (version self) (logger self)
             (get_component_dependencies (metadata self)) of
        (r, lg) \<Rightarrow> (r, self\<lparr>logger := lg\<rparr>))"

definition uninstall ::
  "(string \<Rightarrow> string \<Rightarrow> string \<Rightarrow> bool) \<Rightarrow> operation_client
     \<Rightarrow> (error + (string \<times> string) list) \<times> operation_client" where
  "uninstall compare_versions self =
     (case uninstall_rpm (client self) (get_package_name (metadata self)) of
        (Inl e, c') \<Rightarrow> (Inl e, self\<lparr>client := c'\<rparr>)
      | (Inr _, c') \<Rightarrow>
          (case check_for_dependency compare_versions (self\<lparr>client := c'\<rparr>) of
             (Inl e, self') \<Rightarrow> (Inl e, self')
           | (Inr _, self') \<Rightarrow>
               (Inr [(''component'', component self), (''version'', version self)], self')))"

section \<open>Installed-state query\<close>

text \<open>\<^verbatim>\<open>needle in haystack\<close> for two strings: \<open>needle\<close> occurs as a substring.\<close>

fun str_in :: "string \<Rightarrow> string \<Rightarrow> bool" where
  "str_in needle [] = (needle = [])"
| "str_in needle (c # cs) = (take (length needle) (c # cs) = needle \<or> str_in needle cs)"

text \<open>
  The pattern \<^verbatim>\<open>'[0-9]+.[0-9]+.[0-9]+'\<close> and \<^verbatim>\<open>re.search\<close>, as the backtracking
  matcher of Python runs them. A pattern is a sequence of items; \<open>Digits\<close> is
  \<^verbatim>\<open>[0-9]+\<close> (greedy) and \<open>AnyChar\<close> is the unescaped \<^verbatim>\<open>.\<close>, which matches every
  character but the newline. Matching an item against an input gives the inputs left
  after each way to match, the preferred way first; \<^verbatim>\<open>search\<close> tries the start
  positions from the left and returns the preferred match at the first position that
  has one, as its start and end offsets.
\<close>

datatype item = Digits | AnyChar

definition is_digit :: "char \<Rightarrow> bool" where
  "is_digit c = (48 \<le> (of_char c :: nat) \<and> (of_char c :: nat) \<le> 57)"

fun digits_plus :: "string \<Rightarrow> string list" where
  "digits_plus [] = []"
| "digits_plus (c # cs) = (if is_digit c then digits_plus cs @ [cs] else [])"

fun match_item :: "item \<Rightarrow> string \<Rightarrow> string list" where
  "match_item Digits s = digits_plus s"
| "match_item AnyChar [] = []"
| "match_item AnyChar (c # cs) = (if c = CHR 0x0A then [] else [cs])"

fun match_here :: "item list \<Rightarrow> string \<Rightarrow> string list" where
  "match_here [] s = [s]"
| "match_here (a # as) s = concat (map (match_here as) (match_item a s))"

fun search_at :: "item list \<Rightarrow> string \<Rightarrow> nat \<Rightarrow> (nat \<times> nat) option" where
  "search_at p [] i =
     (case match_here p [] of
        [] \<Rightarrow> None
      | r # _ \<Rightarrow> Some (i, i))"
| "search_at p (c # cs) i =
     (case match_here p (c # cs) of
        [] \<Rightarrow> search_at p cs (i + 1)
      | r # _ \<Rightarrow> Some (i, i + (length (c # cs) - length r)))"

definition search :: "item list \<Rightarrow> string \<Rightarrow> (nat \<times> nat) option" where
  "search p s = search_at p s 0"

definition version_number_pattern :: "item list" where
  "version_number_pattern = [Digits, AnyChar, Digits, AnyChar, Digits]"

text \<open>
  \<^verbatim>\<open>_get_version_number_from_package_name\<close>: when the search finds nothing,
  \<^verbatim>\<open>version_index\<close> is \<^verbatim>\<open>None\<close> and \<^verbatim>\<open>version_index.start()\<close> raises
  \<^verbatim>\<open>AttributeError\<close>.
\<close>

definition get_version_number_from_package_name :: "string \<Rightarrow> error + string" where
  "get_version_number_from_package_name package_name =
     (case search version_number_pattern package_name of
        None \<Rightarrow> Inl AttributeError
      | Some (start, end) \<Rightarrow> Inr (take (end - start) (drop start package_name)))"

definition check_rpm_exists ::
  "management_client \<Rightarrow> string \<Rightarrow> (error + string) \<times> management_client" where
  "check_rpm_exists c component_package_name =
     (case make_request c (post_request PKG_MGMT_URI [(''operation'', ''QUERY'')]) of
        (Inl e, c') \<Rightarrow> (Inl e, c')
      | (Inr response, c') \<Rightarrow>
          (case check_rpm_task_status c' (id_key response) of
             (Inl e, c'') \<Rightarrow> (Inl e, c'')
           | (Inr response', c'') \<Rightarrow>
               (let query_response = queryResponse response';
                    matching_packages =
                      filter (\<lambda>i. str_in component_package_name (packageName i)) query_response
                in if length matching_packages = 1
                   then (get_version_number_from_package_name
                           (packageName (hd matching_packages)), c'')
                   else (Inr [], c''))))"

record version_data =
  installed :: bool
  installed_version :: string
  latest_version :: string

definition is_installed :: "operation_client \<Rightarrow> (error + version_data) \<times> operation_client" where
  "is_installed self =
     (case check_rpm_exists (client self) (get_component_package_name (metadata self)) of
        (Inl e, c') \<Rightarrow> (Inl e, self\<lparr>client := c'\<rparr>)
      | (Inr retrieve_rpm_version, c') \<Rightarrow>
          (Inr \<lparr>installed = (retrieve_rpm_version \<noteq> []),
                installed_version = retrieve_rpm_version,
                latest_version = get_latest_version (metadata self)\<rparr>,
           self\<lparr>client := c'\<rparr>))"

section \<open>The legacy client: \<^verbatim>\<open>Operation\<close>\<close>

text \<open>
  \<^verbatim>\<open>Operation._upload_rpm\<close>, \<^verbatim>\<open>Operation._check_rpm_task_status\<close> and
  \<^verbatim>\<open>Operation._install_rpm\<close> of the legacy module, each translated from its own
  source text. The polling method returns \<^verbatim>\<open>status_response['status']\<close>.
\<close>

function legacy_upload_loop ::
  "management_client \<Rightarrow> string \<Rightarrow> int \<Rightarrow> file_object \<Rightarrow> int \<Rightarrow> (error + unit) \<times> management_client"
where
  "legacy_upload_loop c u file_size file_obj start_index =
     (case read_n max_chunk file_obj of
        (file_slice, file_obj') \<Rightarrow>
          if file_slice = [] then (Inr (), c)
          else
            (let slice_size = int (length file_slice);
                 end = (if slice_size < int max_chunk then file_size else start_index + slice_size)
             in case make_request c
                  \<lparr>uri = u, http_method = ''POST'',
                   headers = upload_headers start_index end file_size,
                   body = Some (BytesBody file_slice), body_content_type = ''raw''\<rparr> of
                  (Inl e, c') \<Rightarrow> (Inl e, c')
                | (Inr _, c') \<Rightarrow>
                    legacy_upload_loop c' u file_size file_obj' (start_index + slice_size)))"
  by pat_completeness auto
termination
  by (relation "measure (\<lambda>(c, u, file_size, f, start_index). length (content f) - pos f)")
     (auto simp: read_n_def)

declare legacy_upload_loop.simps [simp del]

definition legacy_upload_rpm ::
  "management_client \<Rightarrow> filesystem \<Rightarrow> string \<Rightarrow> bool
     \<Rightarrow> (error + unit) \<times> management_client \<times> filesystem" where
  "legacy_upload_rpm c fs file_name delete_file =
     (case open_rb fs file_name of
        Inl e \<Rightarrow> (Inl e, c, fs)
      | Inr file_obj \<Rightarrow>
          (case read_all file_obj of
             (whole, file_obj1) \<Rightarrow>
               (case legacy_upload_loop c (upload_uri file_name) (int (length whole))
                       (seek 0 file_obj1) 0 of
                  (Inl e, c') \<Rightarrow> (Inl e, c', fs)
                | (Inr _, c') \<Rightarrow>
                    (Inr (), c', if delete_file then os_remove fs file_name else fs))))"

function legacy_check_loop ::
  "management_client \<Rightarrow> string \<Rightarrow> nat \<Rightarrow> (error + string) \<times> management_client"
where
  "legacy_check_loop c status_link_uri count =
     (case make_request c (get_request status_link_uri) of
        (Inl e, c') \<Rightarrow> (Inl e, c')
      | (Inr status_response, c') \<Rightarrow>
          if status status_response = ''FINISHED'' then (Inr (status status_response), c')
          else if status status_response = ''FAILED''
            then (Inl (Exception (errorMessage status_response)), c')
          else if count > max_count then (Inl (Exception ''Max count exceeded''), c')
          else legacy_check_loop c' status_link_uri (count + 1))"
  by pat_completeness auto
termination
  by (relation "measure (\<lambda>(c, u, count). Suc max_count - count)") auto

declare legacy_check_loop.simps [simp del]

definition legacy_check_rpm_task_status ::
  "management_client \<Rightarrow> string \<Rightarrow> (error + string) \<times> management_client" where
  "legacy_check_rpm_task_status c task_id =
     legacy_check_loop c (PKG_MGMT_URI @ ''/'' @ task_id) 0"

definition legacy_install_rpm ::
  "management_client \<Rightarrow> string \<Rightarrow> (error + unit) \<times> management_client" where
  "legacy_install_rpm c package_path =
     (case make_request c
             (post_request PKG_MGMT_URI
                [(''operation'', ''INSTALL''), (''packageFilePath'', package_path)]) of
        (Inl e, c') \<Rightarrow> (Inl e, c')
      | (Inr response, c') \<Rightarrow>
          (case legacy_check_rpm_task_status c' (id_key response) of
             (Inl e, c'') \<Rightarrow> (Inl e, c'')
           | (Inr _, c'') \<Rightarrow> (Inr (), c'')))"

section \<open>Notions used to state the properties\<close>

text \<open>
  Sending a list of requests in order, stopping at the first one that raises: what the
  upload loop is shown to do with the requests of the chunks.
\<close>

fun send_all :: "management_client \<Rightarrow> request list \<Rightarrow> (error + unit) \<times> management_client" where
  "send_all c [] = (Inr (), c)"
| "send_all c (r # rs) =
     (case make_request c r of
        (Inl e, c') \<Rightarrow> (Inl e, c')
      | (Inr _, c') \<Rightarrow> send_all c' rs)"

text \<open>
  The number of chunks of a file of \<open>n\<close> bytes, the byte range \<open>[start, end)\<close> of
  chunk \<open>k\<close>, and the request that carries chunk \<open>k\<close> of the content \<open>data\<close>.
\<close>

definition num_chunks :: "nat \<Rightarrow> nat" where
  "num_chunks n = (n + max_chunk - 1) div max_chunk"

definition chunk_range :: "nat \<Rightarrow> nat \<Rightarrow> int \<times> int" where
  "chunk_range n k = (int (k * max_chunk), int (min ((k + 1) * max_chunk) n))"

definition chunk_ranges :: "nat \<Rightarrow> (int \<times> int) list" where
  "chunk_ranges n = map (chunk_range n) [0..<num_chunks n]"

definition chunk_request :: "string \<Rightarrow> byte list \<Rightarrow> nat \<Rightarrow> request" where
  "chunk_request u data k =
     \<lparr>uri = u, http_method = ''POST'',
      headers = upload_headers (fst (chunk_range (length data) k))
                  (snd (chunk_range (length data) k)) (int (length data)),
      body = Some (BytesBody (take max_chunk (drop (k * max_chunk) data))),
      body_content_type = ''raw''\<rparr>"

text \<open>
  A list of ranges \<open>[start, end)\<close> tiles \<open>[a, b)\<close>: the first starts at \<open>a\<close>, each is
  not empty and starts where the one before ended, and the last ends at \<open>b\<close>.
\<close>

fun tiles :: "int \<Rightarrow> (int \<times> int) list \<Rightarrow> int \<Rightarrow> bool" where
  "tiles a [] b = (a = b)"
| "tiles a ((s, e) # rs) b = (s = a \<and> s < e \<and> tiles e rs b)"

text \<open>The requests a run sent: those the log gained.\<close>

definition sent :: "management_client \<Rightarrow> management_client \<Rightarrow> request list" where
  "sent c c' = drop (length (log c)) (log c')"

text \<open>The answer of the device to the \<open>i\<close>-th request made from the state \<open>c\<close> on.\<close>

definition answer :: "management_client \<Rightarrow> nat \<Rightarrow> error + response" where
  "answer c i = script c (length (log c) + i)"

definition succeeds :: "management_client \<Rightarrow> nat \<Rightarrow> bool" where
  "succeeds c i = (case answer c i of Inl _ \<Rightarrow> False | Inr _ \<Rightarrow> True)"

definition terminal :: "response \<Rightarrow> bool" where
  "terminal r = (status r = ''FINISHED'' \<or> status r = ''FAILED'')"

text \<open>
  The client after \<open>n\<close> more polls of a task, and the address that is polled.
\<close>

definition polled :: "management_client \<Rightarrow> string \<Rightarrow> nat \<Rightarrow> management_client" where
  "polled c u n = c\<lparr>log := log c @ replicate n (get_request u)\<rparr>"

definition status_uri :: "string \<Rightarrow> string" where
  "status_uri task_id = PKG_MGMT_URI @ ''/'' @ task_id"

text \<open>
  The current polling method returns a dictionary and the legacy one a string; to compare
  the two return values they are put into one type of Python values.
\<close>

datatype py_value = PyStr string | PyDict response

text \<open>
  Every declared version constraint of a dependency holds against the version \<open>v\<close>.
\<close>

definition all_constraints_hold ::
  "(string \<Rightarrow> string \<Rightarrow> string \<Rightarrow> bool) \<Rightarrow> string \<Rightarrow> dependency \<Rightarrow> bool" where
  "all_constraints_hold compare_versions v dep =
     list_all (\<lambda>i. compare_versions v (version_key i) (operation_key i)) (versions dep)"

text \<open>
  What the pattern of the version number matches, said without the matcher: a group of
  digits is a string of one or more digits, an item matches a group of digits or one
  character other than the newline, and a pattern matches the strings that split into
  matches of its items in order. For the pattern of the source these are the
  \<open>version_like\<close> strings; \<open>dotted_version\<close> is the form \<^verbatim>\<open>N.N.N\<close> with two
  dots.
\<close>

definition digit_group :: "string \<Rightarrow> bool" where
  "digit_group w = (w \<noteq> [] \<and> list_all is_digit w)"

fun item_lang :: "item \<Rightarrow> string \<Rightarrow> bool" where
  "item_lang Digits w = digit_group w"
| "item_lang AnyChar w = (\<exists>x. w = [x] \<and> x \<noteq> CHR 0x0A)"

fun lang :: "item list \<Rightarrow> string \<Rightarrow> bool" where
  "lang [] w = (w = [])"
| "lang (a # as) w = (\<exists>u v. w = u @ v \<and> item_lang a u \<and> lang as v)"

definition version_like :: "string \<Rightarrow> bool" where
  "version_like w =
     (\<exists>a x b y c. w = a @ [x] @ b @ [y] @ c \<and> digit_group a \<and> digit_group b \<and> digit_group c
                  \<and> x \<noteq> CHR 0x0A \<and> y \<noteq> CHR 0x0A)"

definition dotted_version :: "string \<Rightarrow> bool" where
  "dotted_version w =
     (\<exists>a b c. w = a @ ''.'' @ b @ ''.'' @ c \<and> digit_group a \<and> digit_group b \<and> digit_group c)"

text \<open>
  A string has a substring that the pattern matches; the request that submits the
  \<^verbatim>\<open>QUERY\<close> task; and the packages of a response whose name contains the package
  name of the component.
\<close>

definition has_version_like :: "string \<Rightarrow> bool" where
  "has_version_like s = (\<exists>pre w post. s = pre @ w @ post \<and> version_like w)"

definition query_request :: request where
  "query_request = post_request PKG_MGMT_URI [(''operation'', ''QUERY'')]"

definition matching_packages :: "string \<Rightarrow> response \<Rightarrow> package list" where
  "matching_packages component_package_name r =
     filter (\<lambda>i. str_in component_package_name (packageName i)) (queryResponse r)"
section \<open>Concrete devices, files and clients\<close>

text \<open>
  Inputs at which the properties below are evaluated: a device that answers every
  request with a finished task, one whose second answer is an HTTP error, and a package
  file of 2.5 MiB in the temporary directory.
\<close>

definition ok_response :: response where
  "ok_response = \<lparr>id_key = ''42'', status = ''FINISHED'', errorMessage = [], queryResponse = []\<rparr>"

definition willing_device :: management_client where
  "willing_device = \<lparr>script = (\<lambda>k. Inr ok_response), log = []\<rparr>"

definition flaky_device :: management_client where
  "flaky_device =
     \<lparr>script = (\<lambda>k. if k = 1 then Inl (TransportError ''503 Service Unavailable'')
                     else Inr ok_response),
      log = []\<rparr>"

definition rpm_path :: string where
  "rpm_path = ''/tmp/f5-appsvcs-3.10.0-5.noarch.rpm''"

definition rpm_content :: "byte list" where
  "rpm_content = replicate 2621440 0"

definition tmp_fs :: filesystem where
  "tmp_fs = [rpm_path \<mapsto> rpm_content]"

text \<open>
  Devices for the polling loop: one that reports \<^verbatim>\<open>RUNNING\<close> three times and then
  \<^verbatim>\<open>FINISHED\<close>, one that reports \<^verbatim>\<open>RUNNING\<close> for ever, and one whose task
  failed with the error message \<^verbatim>\<open>Max count exceeded\<close>.
\<close>

definition running_response :: response where
  "running_response = \<lparr>id_key = ''42'', status = ''RUNNING'', errorMessage = [], queryResponse = []\<rparr>"

definition failed_response :: response where
  "failed_response =
     \<lparr>id_key = ''42'', status = ''FAILED'', errorMessage = ''Max count exceeded'',
      queryResponse = []\<rparr>"

definition slow_device :: management_client where
  "slow_device = \<lparr>script = (\<lambda>k. if k < 3 then Inr running_response else Inr ok_response), log = []\<rparr>"

definition busy_device :: management_client where
  "busy_device = \<lparr>script = (\<lambda>k. Inr running_response), log = []\<rparr>"

definition failing_device :: management_client where
  "failing_device = \<lparr>script = (\<lambda>k. Inr failed_response), log = []\<rparr>"

text \<open>A device whose tasks finish at once and which lists one installed package.\<close>

definition as3_response :: response where
  "as3_response =
     \<lparr>id_key = ''42'', status = ''FINISHED'', errorMessage = [],
      queryResponse = [\<lparr>packageName = ''f5-appsvcs-3.10.0-5.noarch''\<rparr>]\<rparr>"

definition as3_device :: management_client where
  "as3_device = \<lparr>script = (\<lambda>k. Inr as3_response), log = []\<rparr>"

text \<open>
  Metadata of two components: \<^verbatim>\<open>as3\<close>, on which \<^verbatim>\<open>do\<close> depends from version
  3.0.0 on, and \<^verbatim>\<open>ts\<close>, with a dependent that declares no constraint.
\<close>

definition as3_metadata :: metadata_client where
  "as3_metadata =
     \<lparr>get_package_name = ''f5-appsvcs-3.10.0-5.noarch'',
      get_component_package_name = ''f5-appsvcs'',
      get_latest_version = ''3.10.0'',
      get_component_dependencies =
        [(''do'', \<lparr>versions = [\<lparr>version_key = ''3.0.0'', operation_key = ''>=''\<rparr>],
                  uninstallDocumentation = ''https://clouddocs.f5.com/do/uninstall.html''\<rparr>)]\<rparr>"

definition ts_metadata :: metadata_client where
  "ts_metadata =
     \<lparr>get_package_name = ''f5-telemetry-1.4.0-1.noarch'',
      get_component_package_name = ''f5-telemetry'',
      get_latest_version = ''1.4.0'',
      get_component_dependencies =
        [(''as3'', \<lparr>versions = [], uninstallDocumentation = ''https://clouddocs.f5.com/as3''\<rparr>)]\<rparr>"

text \<open>
  Devices for the installed-state query. The first lists a package of \<^verbatim>\<open>as3\<close>
  with the version 3 and the release 5 beside a package of another component, the second
  a package of \<^verbatim>\<open>as3\<close> with the version 3.10 and the release 5, the third a package
  name with no digits at all.
\<close>

definition versionless_response :: response where
  "versionless_response =
     \<lparr>id_key = ''42'', status = ''FINISHED'', errorMessage = [],
      queryResponse = [\<lparr>packageName = ''f5-appsvcs-3-5.noarch''\<rparr>,
                       \<lparr>packageName = ''f5-telemetry-1.4.0-1.noarch''\<rparr>]\<rparr>"

definition versionless_device :: management_client where
  "versionless_device = \<lparr>script = (\<lambda>k. Inr versionless_response), log = []\<rparr>"

definition short_version_response :: response where
  "short_version_response =
     \<lparr>id_key = ''42'', status = ''FINISHED'', errorMessage = [],
      queryResponse = [\<lparr>packageName = ''f5-appsvcs-3.10-5.noarch''\<rparr>]\<rparr>"

definition short_version_device :: management_client where
  "short_version_device = \<lparr>script = (\<lambda>k. Inr short_version_response), log = []\<rparr>"

definition bare_as3_response :: response where
  "bare_as3_response =
     \<lparr>id_key = ''7'', status = ''FINISHED'', errorMessage = [],
      queryResponse = [\<lparr>packageName = ''f5-appsvcs''\<rparr>]\<rparr>"

definition bare_as3_device :: management_client where
  "bare_as3_device = \<lparr>script = (\<lambda>k. Inr bare_as3_response), log = []\<rparr>"
section \<open>The upload loop sends the chunks in order\<close>

lemma max_chunk_pos: "0 < max_chunk"
  by (simp add: max_chunk_def)

lemma less_num_chunks: "k < num_chunks n \<longleftrightarrow> k * max_chunk < n"
proof -
  have "num_chunks n \<le> k \<longleftrightarrow> n + max_chunk - 1 < (k + 1) * max_chunk"
    unfolding num_chunks_def using max_chunk_pos
    by (metis Suc_eq_plus1 div_less_iff_less_mult less_Suc_eq_le)
  also have "\<dots> \<longleftrightarrow> n \<le> k * max_chunk"
    using max_chunk_pos by (auto simp: algebra_simps)
  finally show ?thesis by auto
qed

lemma upload_loop_at_end:
  "length (content f) \<le> pos f \<Longrightarrow> upload_loop c u file_size f start_index = (Inr (), c)"
  by (subst upload_loop.simps) (simp add: read_n_def)

lemma upload_loop_unfold:
  assumes "read_n max_chunk f = (sl, f')" and "sl \<noteq> []"
  shows "upload_loop c u file_size f start_index =
     (case make_request c
        \<lparr>uri = u, http_method = ''POST'',
         headers = upload_headers start_index
            (if int (length sl) < int max_chunk then file_size else start_index + int (length sl))
            file_size,
         body = Some (BytesBody sl), body_content_type = ''raw''\<rparr> of
        (Inl e, c') \<Rightarrow> (Inl e, c')
      | (Inr _, c') \<Rightarrow> upload_loop c' u file_size f' (start_index + int (length sl)))"
  using assms by (subst upload_loop.simps) (simp add: Let_def)

lemma upload_loop_send_all:
  "upload_loop c u (int (length data)) \<lparr>content = data, pos = k * max_chunk\<rparr> (int (k * max_chunk))
     = send_all c (map (chunk_request u data) [k..<num_chunks (length data)])"
proof (induction "num_chunks (length data) - k" arbitrary: k c)
  case 0
  then have le: "num_chunks (length data) \<le> k" by simp
  then have "length data \<le> k * max_chunk"
    using less_num_chunks [of k "length data"] by simp
  then have "upload_loop c u (int (length data)) \<lparr>content = data, pos = k * max_chunk\<rparr>
      (int (k * max_chunk)) = (Inr (), c)"
    by (simp add: upload_loop_at_end)
  with le show ?case by simp
next
  case (Suc m)
  then have lt: "k < num_chunks (length data)" by simp
  then have klt: "k * max_chunk < length data" by (simp add: less_num_chunks)
  define sl where "sl = take max_chunk (drop (k * max_chunk) data)"
  define f' where "f' = \<lparr>content = data, pos = k * max_chunk + length sl\<rparr>"
  have ne: "sl \<noteq> []" using klt max_chunk_pos by (simp add: sl_def)
  have len: "length sl = min max_chunk (length data - k * max_chunk)" by (simp add: sl_def)
  have rd: "read_n max_chunk \<lparr>content = data, pos = k * max_chunk\<rparr> = (sl, f')"
    by (simp add: read_n_def sl_def f'_def)
  have upt: "[k..<num_chunks (length data)] = k # [Suc k..<num_chunks (length data)]"
    using lt by (simp add: upt_conv_Cons)
  have req: "\<lparr>uri = u, http_method = ''POST'',
       headers = upload_headers (int (k * max_chunk))
          (if int (length sl) < int max_chunk then int (length data)
           else int (k * max_chunk) + int (length sl)) (int (length data)),
       body = Some (BytesBody sl), body_content_type = ''raw''\<rparr> = chunk_request u data k"
    using klt by (auto simp: chunk_request_def chunk_range_def len sl_def min_def algebra_simps)
  have rest: "upload_loop c' u (int (length data)) f' (int (k * max_chunk) + int (length sl))
        = send_all c' (map (chunk_request u data) [Suc k..<num_chunks (length data)])" for c'
  proof (cases "length sl < max_chunk")
    case True
    then have "length data \<le> Suc k * max_chunk" by (simp add: len min_def split: if_splits)
    then have "num_chunks (length data) \<le> Suc k"
      using less_num_chunks [of "Suc k" "length data"] by simp
    moreover have "length (content f') \<le> pos f'"
      using True klt by (simp add: f'_def len min_def split: if_splits)
    ultimately show ?thesis by (simp add: upload_loop_at_end)
  next
    case False
    then have eq: "length sl = max_chunk" by (simp add: len min_def split: if_splits)
    have "m = num_chunks (length data) - Suc k" using Suc.hyps(2) by simp
    from Suc.hyps(1) [OF this, of c'] show ?thesis
      by (simp add: eq f'_def algebra_simps)
  qed
  show ?case
    unfolding upload_loop_unfold [OF rd ne] req upt
    using rest by (simp split: prod.splits sum.splits)
qed

lemma make_request_simps [simp]:
  "fst (make_request c r) = answer c 0"
  "snd (make_request c r) = c\<lparr>log := log c @ [r]\<rparr>"
  by (simp_all add: make_request_def answer_def)

lemma answer_after_request [simp]: "answer (c\<lparr>log := log c @ [r]\<rparr>) i = answer c (Suc i)"
  by (simp add: answer_def)

lemma succeeds_after_request [simp]: "succeeds (c\<lparr>log := log c @ [r]\<rparr>) i = succeeds c (Suc i)"
  by (simp add: succeeds_def)

lemma send_all_unfold:
  "send_all c (r # rs) =
     (case answer c 0 of
        Inl e \<Rightarrow> (Inl e, c\<lparr>log := log c @ [r]\<rparr>)
      | Inr _ \<Rightarrow> send_all (c\<lparr>log := log c @ [r]\<rparr>) rs)"
  by (simp add: make_request_def answer_def split: sum.splits)

lemma send_all_success:
  "(\<And>i. i < length rs \<Longrightarrow> succeeds c i) \<Longrightarrow> send_all c rs = (Inr (), c\<lparr>log := log c @ rs\<rparr>)"
proof (induction rs arbitrary: c)
  case Nil
  then show ?case by simp
next
  case (Cons r rs)
  from Cons.prems [of 0] obtain x where x: "answer c 0 = Inr x"
    by (auto simp: succeeds_def split: sum.splits)
  have "send_all (c\<lparr>log := log c @ [r]\<rparr>) rs
      = (Inr (), c\<lparr>log := log c @ [r]\<rparr>\<lparr>log := log (c\<lparr>log := log c @ [r]\<rparr>) @ rs\<rparr>)"
    using Cons.prems by (intro Cons.IH) auto
  then show ?case by (simp add: send_all_unfold x del: send_all.simps)
qed

lemma send_all_failure:
  "j < length rs \<Longrightarrow> answer c j = Inl e \<Longrightarrow> (\<And>i. i < j \<Longrightarrow> succeeds c i) \<Longrightarrow>
     send_all c rs = (Inl e, c\<lparr>log := log c @ take (Suc j) rs\<rparr>)"
proof (induction rs arbitrary: c j)
  case Nil
  then show ?case by simp
next
  case (Cons r rs)
  show ?case
  proof (cases j)
    case 0
    with Cons.prems show ?thesis by (simp add: send_all_unfold del: send_all.simps)
  next
    case (Suc j')
    from Cons.prems(3) [of 0] Suc obtain x where x: "answer c 0 = Inr x"
      by (auto simp: succeeds_def split: sum.splits)
    have "send_all (c\<lparr>log := log c @ [r]\<rparr>) rs
        = (Inl e, c\<lparr>log := log c @ [r]\<rparr>\<lparr>log := log (c\<lparr>log := log c @ [r]\<rparr>) @ take (Suc j') rs\<rparr>)"
      using Cons.prems Suc by (intro Cons.IH) auto
    then show ?thesis by (simp add: send_all_unfold x Suc del: send_all.simps)
  qed
qed

lemma send_all_sent_prefix:
  "\<exists>m \<le> length rs. sent c (snd (send_all c rs)) = take m rs"
proof (cases "\<forall>i < length rs. succeeds c i")
  case True
  then have "send_all c rs = (Inr (), c\<lparr>log := log c @ rs\<rparr>)" by (simp add: send_all_success)
  then have "sent c (snd (send_all c rs)) = take (length rs) rs" by (simp add: sent_def)
  then show ?thesis by blast
next
  case False
  then have ex: "\<exists>j. j < length rs \<and> \<not> succeeds c j" by blast
  define j where "j = (LEAST j. j < length rs \<and> \<not> succeeds c j)"
  have j: "j < length rs" "\<not> succeeds c j"
    using LeastI_ex [OF ex] by (simp_all add: j_def)
  have before: "succeeds c i" if "i < j" for i
    using not_less_Least [of i "\<lambda>j. j < length rs \<and> \<not> succeeds c j"] that j(1)
    by (auto simp: j_def)
  from j(2) obtain e where "answer c j = Inl e"
    by (auto simp: succeeds_def split: sum.splits)
  from send_all_failure [OF j(1) this before]
  have "sent c (snd (send_all c rs)) = take (Suc j) rs" by (simp add: sent_def)
  moreover have "Suc j \<le> length rs" using j(1) by simp
  ultimately show ?thesis by blast
qed

lemma send_all_ok_iff:
  "fst (send_all c rs) = Inr () \<longleftrightarrow> (\<forall>i < length rs. succeeds c i)"
proof
  assume ok: "fst (send_all c rs) = Inr ()"
  show "\<forall>i < length rs. succeeds c i"
  proof (rule ccontr)
    assume "\<not> (\<forall>i < length rs. succeeds c i)"
    then have ex: "\<exists>j. j < length rs \<and> \<not> succeeds c j" by blast
    define j where "j = (LEAST j. j < length rs \<and> \<not> succeeds c j)"
    have j: "j < length rs" "\<not> succeeds c j"
      using LeastI_ex [OF ex] by (simp_all add: j_def)
    have before: "succeeds c i" if "i < j" for i
      using not_less_Least [of i "\<lambda>j. j < length rs \<and> \<not> succeeds c j"] that j(1)
      by (auto simp: j_def)
    from j(2) obtain e where "answer c j = Inl e"
      by (auto simp: succeeds_def split: sum.splits)
    from send_all_failure [OF j(1) this before] ok show False by simp
  qed
next
  assume "\<forall>i < length rs. succeeds c i"
  then show "fst (send_all c rs) = Inr ()" by (simp add: send_all_success)
qed

lemma upload_rpm_send_all:
  assumes "fs file_name = Some data"
  shows "upload_rpm c fs file_name delete_file =
     (case send_all c (map (chunk_request (upload_uri file_name) data)
                         [0..<num_chunks (length data)]) of
        (Inl e, c') \<Rightarrow> (Inl e, c', fs)
      | (Inr _, c') \<Rightarrow> (Inr (), c', if delete_file then os_remove fs file_name else fs))"
  using assms upload_loop_send_all [of c "upload_uri file_name" data 0]
  by (simp add: upload_rpm_def open_rb_def read_all_def seek_def)

lemma upload_rpm_success:
  assumes "fs file_name = Some data" and "\<forall>k < num_chunks (length data). succeeds c k"
  shows "upload_rpm c fs file_name delete_file =
     (Inr (),
      c\<lparr>log := log c @ map (chunk_request (upload_uri file_name) data) [0..<num_chunks (length data)]\<rparr>,
      if delete_file then os_remove fs file_name else fs)"
proof -
  have "send_all c (map (chunk_request (upload_uri file_name) data) [0..<num_chunks (length data)])
      = (Inr (), c\<lparr>log := log c @ map (chunk_request (upload_uri file_name) data)
                                     [0..<num_chunks (length data)]\<rparr>)"
    by (rule send_all_success) (use assms(2) in simp)
  with assms(1) show ?thesis by (simp add: upload_rpm_send_all)
qed

lemma sent_append [simp]: "sent c (c\<lparr>log := log c @ rs\<rparr>) = rs"
  by (simp add: sent_def)

lemma chunk_range_full: "Suc k < num_chunks n \<Longrightarrow> chunk_range n k = (int (k * max_chunk), int (k * max_chunk) + int max_chunk)"
  by (simp add: chunk_range_def less_num_chunks min_def algebra_simps)

lemma chunk_range_last: "num_chunks n = Suc k \<Longrightarrow> chunk_range n k = (int (k * max_chunk), int n)"
  using less_num_chunks [of "Suc k" n] by (simp add: chunk_range_def min_def)

lemma chunk_range_nonempty: "k < num_chunks n \<Longrightarrow> fst (chunk_range n k) < snd (chunk_range n k)"
  unfolding chunk_range_def fst_conv snd_conv of_nat_less_iff
  using max_chunk_pos by (simp add: less_num_chunks)

lemma chunk_range_size: "snd (chunk_range n k) - fst (chunk_range n k) \<le> int max_chunk"
  unfolding chunk_range_def fst_conv snd_conv of_nat_diff [symmetric] of_nat_le_iff
  by (simp add: min_def of_nat_diff [symmetric] del: of_nat_mult of_nat_add)

lemma tiles_chunk_ranges_from:
  "k < num_chunks n \<Longrightarrow> tiles (int (k * max_chunk)) (map (chunk_range n) [k..<num_chunks n]) (int n)"
proof (induction "num_chunks n - k" arbitrary: k)
  case 0
  then show ?case by simp
next
  case (Suc m)
  have upt: "[k..<num_chunks n] = k # [Suc k..<num_chunks n]"
    using Suc.prems by (simp add: upt_conv_Cons)
  show ?case
  proof (cases "Suc k < num_chunks n")
    case True
    have "m = num_chunks n - Suc k" using Suc.hyps(2) by simp
    from Suc.hyps(1) [OF this True] True max_chunk_pos show ?thesis
      by (simp add: upt chunk_range_full algebra_simps)
  next
    case False
    with Suc.prems have last: "num_chunks n = Suc k" by simp
    have "map (chunk_range n) [k..<num_chunks n] = [(int (k * max_chunk), int n)]"
      by (simp add: last chunk_range_last [OF last])
    moreover have "int (k * max_chunk) < int n"
      using chunk_range_nonempty [OF Suc.prems] by (simp add: chunk_range_last [OF last])
    ultimately show ?thesis by simp
  qed
qed

lemma tiles_chunk_ranges: "0 < n \<Longrightarrow> tiles 0 (chunk_ranges n) (int n)"
  using tiles_chunk_ranges_from [of 0 n] by (simp add: chunk_ranges_def less_num_chunks)

lemma chunk_ranges_butlast:
  "(s, e) \<in> set (butlast (chunk_ranges n)) \<Longrightarrow> e = s + int max_chunk"
proof -
  assume a: "(s, e) \<in> set (butlast (chunk_ranges n))"
  have "butlast (chunk_ranges n) = map (chunk_range n) [0..<num_chunks n - 1]"
    by (simp add: chunk_ranges_def butlast_conv_take take_map)
  with a obtain k where "k < num_chunks n - 1" "(s, e) = chunk_range n k" by auto
  then show ?thesis using chunk_range_full [of k n] by simp
qed

lemma chunk_ranges_last: "0 < n \<Longrightarrow> snd (last (chunk_ranges n)) = int n"
proof -
  assume "0 < n"
  then have "0 < num_chunks n" by (simp add: less_num_chunks)
  then obtain k where k: "num_chunks n = Suc k" by (cases "num_chunks n") auto
  then show ?thesis by (simp add: chunk_ranges_def chunk_range_last [OF k])
qed

lemma chunk_body: "take (nat (snd (chunk_range (length data) k) - fst (chunk_range (length data) k)))
     (drop (nat (fst (chunk_range (length data) k))) data) = take max_chunk (drop (k * max_chunk) data)"
proof -
  have n: "nat (int a - int b) = a - b" for a b :: nat by simp
  have "take (min ((k + 1) * max_chunk) (length data) - k * max_chunk) (drop (k * max_chunk) data)
      = take max_chunk (drop (k * max_chunk) data)"
    by (simp add: min_def)
  then show ?thesis
    unfolding chunk_range_def fst_conv snd_conv n nat_int .
qed

lemma num_chunks_2_5_MiB: "num_chunks 2621440 = 3"
  by (simp add: num_chunks_def max_chunk_def)

lemma content_ranges_2_5_MiB: "length data = 2621440 \<Longrightarrow>
  map (\<lambda>r. map_of (headers r) ''Content-Range'') (map (chunk_request u data) [0..<num_chunks (length data)])
  = [Some ''0-1048575/2621440'', Some ''1048576-2097151/2621440'', Some ''2097152-2621439/2621440'']"
  by (simp add: num_chunks_def max_chunk_def chunk_request_def chunk_range_def upload_headers_def
      str_def str_nat.simps digit_char_def upt_rec)


lemma chunk_request_explicit:
  "chunk_request u data i =
     (let start = int (i * 1048576);
          end = min (start + 1048576) (int (length data));
          total = int (length data)
      in \<lparr>uri = u, http_method = ''POST'',
          headers = [(''Content-Range'', str start @ ''-'' @ str (end - 1) @ ''/'' @ str total),
                     (''Content-Length'', str end),
                     (''Content-Type'', ''application/octet-stream'')],
          body = Some (BytesBody (take (nat (end - start)) (drop (nat start) data))),
          body_content_type = ''raw''\<rparr>)"
proof -
  have r: "chunk_range (length data) i
      = (int (i * 1048576), min (int (i * 1048576) + 1048576) (int (length data)))"
    by (simp add: chunk_range_def max_chunk_def min_def)
  show ?thesis
    using chunk_body [of data i]
    by (simp add: chunk_request_def upload_headers_def r Let_def)
qed
section \<open>The polling loop, poll by poll\<close>

lemma polled_0 [simp]: "polled c u 0 = c"
  by (simp add: polled_def)

lemma polled_polled [simp]: "polled (polled c u m) u n = polled c u (m + n)"
  by (simp add: polled_def replicate_add)

lemma answer_polled [simp]: "answer (polled c u n) i = answer c (n + i)"
  by (simp add: answer_def polled_def add.assoc)

lemma sent_polled [simp]: "sent c (polled c u n) = replicate n (get_request u)"
  by (simp add: sent_def polled_def)

lemma check_loop_unfold:
  "check_loop c u count =
     (case answer c 0 of
        Inl e \<Rightarrow> (Inl e, polled c u 1)
      | Inr r \<Rightarrow>
          if status r = ''FINISHED'' then (Inr r, polled c u 1)
          else if status r = ''FAILED'' then (Inl (Exception (errorMessage r)), polled c u 1)
          else if count > max_count then (Inl (Exception ''Max count exceeded''), polled c u 1)
          else check_loop (polled c u 1) u (count + 1))"
  by (subst check_loop.simps)
     (simp add: make_request_def answer_def polled_def split: sum.splits)

lemma check_loop_skip:
  "(\<And>i. i < j \<Longrightarrow> \<exists>r. answer c i = Inr r \<and> \<not> terminal r) \<Longrightarrow> count + j \<le> Suc max_count \<Longrightarrow>
     check_loop c u count = check_loop (polled c u j) u (count + j)"
proof (induction j arbitrary: c count)
  case 0
  then show ?case by simp
next
  case (Suc j)
  from Suc.prems(1) [of 0] obtain r where r: "answer c 0 = Inr r" "\<not> terminal r" by auto
  have "check_loop c u count = check_loop (polled c u 1) u (count + 1)"
    using r Suc.prems(2) by (subst check_loop_unfold) (simp add: terminal_def)
  also have "\<dots> = check_loop (polled (polled c u 1) u j) u (count + 1 + j)"
    using Suc.prems by (intro Suc.IH) auto
  finally show ?case by simp
qed

lemma poll_finished:
  assumes "j \<le> Suc max_count" and "answer c j = Inr r" and "status r = ''FINISHED''"
    and "\<And>i. i < j \<Longrightarrow> \<exists>r. answer c i = Inr r \<and> \<not> terminal r"
  shows "check_rpm_task_status c task_id = (Inr r, polled c (status_uri task_id) (Suc j))"
proof -
  have "check_rpm_task_status c task_id
      = check_loop (polled c (status_uri task_id) j) (status_uri task_id) (0 + j)"
    unfolding check_rpm_task_status_def status_uri_def [symmetric]
    using assms(4,1) by (intro check_loop_skip) auto
  also have "\<dots> = (Inr r, polled c (status_uri task_id) (Suc j))"
    using assms(2,3) by (subst check_loop_unfold) simp
  finally show ?thesis .
qed

lemma poll_failed:
  assumes "j \<le> Suc max_count" and "answer c j = Inr r" and "status r = ''FAILED''"
    and "\<And>i. i < j \<Longrightarrow> \<exists>r. answer c i = Inr r \<and> \<not> terminal r"
  shows "check_rpm_task_status c task_id
     = (Inl (Exception (errorMessage r)), polled c (status_uri task_id) (Suc j))"
proof -
  have "check_rpm_task_status c task_id
      = check_loop (polled c (status_uri task_id) j) (status_uri task_id) (0 + j)"
    unfolding check_rpm_task_status_def status_uri_def [symmetric]
    using assms(4,1) by (intro check_loop_skip) auto
  also have "\<dots> = (Inl (Exception (errorMessage r)), polled c (status_uri task_id) (Suc j))"
    using assms(2,3) by (subst check_loop_unfold) simp
  finally show ?thesis .
qed

lemma poll_transport_error:
  assumes "j \<le> Suc max_count" and "answer c j = Inl e"
    and "\<And>i. i < j \<Longrightarrow> \<exists>r. answer c i = Inr r \<and> \<not> terminal r"
  shows "check_rpm_task_status c task_id = (Inl e, polled c (status_uri task_id) (Suc j))"
proof -
  have "check_rpm_task_status c task_id
      = check_loop (polled c (status_uri task_id) j) (status_uri task_id) (0 + j)"
    unfolding check_rpm_task_status_def status_uri_def [symmetric]
    using assms(3,1) by (intro check_loop_skip) auto
  also have "\<dots> = (Inl e, polled c (status_uri task_id) (Suc j))"
    using assms(2) by (subst check_loop_unfold) simp
  finally show ?thesis .
qed

lemma poll_timeout:
  assumes "\<And>i. i \<le> Suc max_count \<Longrightarrow> \<exists>r. answer c i = Inr r \<and> \<not> terminal r"
  shows "check_rpm_task_status c task_id
     = (Inl (Exception ''Max count exceeded''), polled c (status_uri task_id) (max_count + 2))"
proof -
  from assms [of "Suc max_count"] obtain r
    where r: "answer c (Suc max_count) = Inr r" "\<not> terminal r" by auto
  have "check_rpm_task_status c task_id
      = check_loop (polled c (status_uri task_id) (Suc max_count)) (status_uri task_id)
          (0 + Suc max_count)"
    unfolding check_rpm_task_status_def status_uri_def [symmetric]
    using assms by (intro check_loop_skip) auto
  also have "\<dots> = (Inl (Exception ''Max count exceeded''),
      polled c (status_uri task_id) (max_count + 2))"
    using r by (subst check_loop_unfold) (simp add: terminal_def)
  finally show ?thesis .
qed

lemma first_terminal_cases:
  fixes rs :: "nat \<Rightarrow> response"
  obtains (none) "\<forall>i \<le> n. \<not> terminal (rs i)"
  | (some) j where "j \<le> n" "terminal (rs j)" "\<forall>i < j. \<not> terminal (rs i)"
proof (cases "\<exists>j \<le> n. terminal (rs j)")
  case False
  then show ?thesis using none by blast
next
  case True
  then have ex: "\<exists>j. j \<le> n \<and> terminal (rs j)" by blast
  define j where "j = (LEAST j. j \<le> n \<and> terminal (rs j))"
  have j: "j \<le> n" "terminal (rs j)"
    using LeastI_ex [OF ex] by (simp_all add: j_def)
  have "\<not> terminal (rs i)" if "i < j" for i
    using not_less_Least [of i "\<lambda>j. j \<le> n \<and> terminal (rs j)"] that j(1)
    by (auto simp: j_def)
  with j show ?thesis using some by blast
qed

lemma first_terminal_unique:
  fixes rs :: "nat \<Rightarrow> response"
  assumes "terminal (rs j)" "\<forall>i < j. \<not> terminal (rs i)"
    and "terminal (rs k)" "\<forall>i < k. \<not> terminal (rs i)"
  shows "j = k"
  using assms by (meson linorder_neqE_nat)
section \<open>The loops of the legacy client\<close>

lemma legacy_upload_loop_eq:
  "legacy_upload_loop c u file_size file_obj start_index
     = upload_loop c u file_size file_obj start_index"
proof (induction c u file_size file_obj start_index rule: upload_loop.induct)
  case (1 c u file_size file_obj start_index)
  show ?case
    by (subst legacy_upload_loop.simps, subst upload_loop.simps)
       (auto simp: Let_def "1.IH" split: prod.splits sum.splits)
qed

lemma legacy_check_loop_eq:
  "legacy_check_loop c u count = map_prod (map_sum id status) id (check_loop c u count)"
proof (induction c u count rule: check_loop.induct)
  case (1 c u count)
  obtain a c' where mk: "make_request c (get_request u) = (a, c')"
    by (cases "make_request c (get_request u)")
  show ?case
  proof (cases a)
    case (Inl e)
    with mk show ?thesis
      by (subst legacy_check_loop.simps, subst check_loop.simps) simp
  next
    case (Inr r)
    show ?thesis
    proof (cases "status r = ''FINISHED'' \<or> status r = ''FAILED'' \<or> count > max_count")
      case True
      with mk Inr show ?thesis
        by (subst legacy_check_loop.simps, subst check_loop.simps) auto
    next
      case False
      then have "legacy_check_loop c' u (count + 1)
          = map_prod (map_sum id status) id (check_loop c' u (count + 1))"
        using "1.IH" [OF mk [symmetric] Inr] by (simp add: not_less id_def)
      with mk Inr False show ?thesis
        by (subst legacy_check_loop.simps, subst check_loop.simps) simp
    qed
  qed
qed
section \<open>The dependency check\<close>

lemma length_filter_eq_iff: "length (filter P xs) = length xs \<longleftrightarrow> list_all P xs"
proof (induction xs)
  case Nil
  then show ?case by simp
next
  case (Cons x xs)
  have "length (filter P xs) \<le> length xs" by simp
  then have "length (filter P xs) \<noteq> Suc (length xs)" by arith
  with Cons show ?case by simp
qed

lemma check_dependencies_no_logger:
  "check_dependencies compare_versions v None deps =
     (if list_ex (\<lambda>(name, dep). all_constraints_hold compare_versions v dep) deps
      then (Inl AttributeError, None) else (Inr (), None))"
  by (induction deps) (auto simp: all_constraints_hold_def length_filter_eq_iff Let_def)

lemma check_dependencies_logger:
  "check_dependencies compare_versions v (Some l) deps =
     (Inr (),
      Some (l\<lparr>warnings := warnings l @
                 map (\<lambda>(name, dep). dependency_msg name dep)
                   (filter (\<lambda>(name, dep). all_constraints_hold compare_versions v dep) deps)\<rparr>))"
  by (induction deps arbitrary: l)
     (auto simp: all_constraints_hold_def length_filter_eq_iff Let_def warning_def)

lemma uninstall_with_logger:
  assumes "logger self = Some l"
    and "uninstall_rpm (client self) (get_package_name (metadata self)) = (Inr (), c')"
  shows "uninstall compare_versions self =
     (Inr [(''component'', component self), (''version'', version self)],
      self\<lparr>client := c',
           logger := Some (l\<lparr>warnings := warnings l @
              map (\<lambda>(name, dep). dependency_msg name dep)
                (filter (\<lambda>(name, dep). all_constraints_hold compare_versions (version self) dep)
                   (get_component_dependencies (metadata self)))\<rparr>)\<rparr>)"
  using assms by (simp add: uninstall_def check_for_dependency_def check_dependencies_logger)

lemma uninstall_rpm_finishes_at_once:
  assumes "answer c 0 = Inr r" and "answer c 1 = Inr r'" and "status r' = ''FINISHED''"
  shows "uninstall_rpm c package_name =
     (Inr (),
      polled (c\<lparr>log := log c @ [post_request PKG_MGMT_URI
                 [(''operation'', ''UNINSTALL''), (''packageName'', package_name)]]\<rparr>)
        (status_uri (id_key r)) (Suc 0))"
proof -
  let ?c1 = "c\<lparr>log := log c @ [post_request PKG_MGMT_URI
                 [(''operation'', ''UNINSTALL''), (''packageName'', package_name)]]\<rparr>"
  have "check_rpm_task_status ?c1 (id_key r) = (Inr r', polled ?c1 (status_uri (id_key r)) (Suc 0))"
    by (rule poll_finished) (use assms in simp_all)
  with assms(1) show ?thesis
    by (simp add: uninstall_rpm_def make_request_def answer_def)
qed
section \<open>The matcher finds what the pattern matches\<close>

lemma digits_plus_iff:
  "r \<in> set (digits_plus s) \<longleftrightarrow> (\<exists>u. s = u @ r \<and> digit_group u)"
proof (induction s)
  case Nil
  then show ?case by (simp add: digit_group_def)
next
  case (Cons c cs)
  show ?case
  proof (cases "is_digit c")
    case False
    have "\<not> (\<exists>u. c # cs = u @ r \<and> digit_group u)"
    proof
      assume "\<exists>u. c # cs = u @ r \<and> digit_group u"
      then obtain u where u: "c # cs = u @ r" "u \<noteq> []" "list_all is_digit u"
        by (auto simp: digit_group_def)
      then obtain u' where "u = c # u'" by (cases u) auto
      with u(3) False show False by simp
    qed
    with False show ?thesis by simp
  next
    case True
    have "(\<exists>u. c # cs = u @ r \<and> digit_group u) \<longleftrightarrow> (r = cs \<or> (\<exists>u. cs = u @ r \<and> digit_group u))"
    proof
      assume "\<exists>u. c # cs = u @ r \<and> digit_group u"
      then obtain u where u: "c # cs = u @ r" "u \<noteq> []" "list_all is_digit u"
        by (auto simp: digit_group_def)
      then obtain u' where u': "u = c # u'" by (cases u) auto
      with u have "cs = u' @ r" "list_all is_digit u'" by simp_all
      then show "r = cs \<or> (\<exists>u. cs = u @ r \<and> digit_group u)"
        by (cases "u' = []") (auto simp: digit_group_def)
    next
      assume "r = cs \<or> (\<exists>u. cs = u @ r \<and> digit_group u)"
      then show "\<exists>u. c # cs = u @ r \<and> digit_group u"
      proof
        assume "r = cs"
        then have "c # cs = [c] @ r \<and> digit_group [c]" using True by (simp add: digit_group_def)
        then show ?thesis by blast
      next
        assume "\<exists>u. cs = u @ r \<and> digit_group u"
        then obtain u where "cs = u @ r" "digit_group u" by blast
        then have "c # cs = (c # u) @ r \<and> digit_group (c # u)"
          using True by (simp add: digit_group_def)
        then show ?thesis by blast
      qed
    qed
    with True Cons.IH show ?thesis by auto
  qed
qed

lemma match_item_iff:
  "r \<in> set (match_item a s) \<longleftrightarrow> (\<exists>u. s = u @ r \<and> item_lang a u)"
proof (cases a)
  case Digits
  then show ?thesis by (simp add: digits_plus_iff)
next
  case AnyChar
  then show ?thesis by (cases s) auto
qed

lemma match_here_iff:
  "r \<in> set (match_here p s) \<longleftrightarrow> (\<exists>w. s = w @ r \<and> lang p w)"
proof (induction p arbitrary: s)
  case Nil
  then show ?case by auto
next
  case (Cons a as)
  have "r \<in> set (match_here (a # as) s)
      \<longleftrightarrow> (\<exists>t. t \<in> set (match_item a s) \<and> r \<in> set (match_here as t))"
    by auto
  also have "\<dots> \<longleftrightarrow> (\<exists>t. (\<exists>u. s = u @ t \<and> item_lang a u) \<and> (\<exists>v. t = v @ r \<and> lang as v))"
    unfolding match_item_iff Cons.IH ..
  also have "\<dots> \<longleftrightarrow> (\<exists>w. s = w @ r \<and> lang (a # as) w)"
  proof
    assume "\<exists>t. (\<exists>u. s = u @ t \<and> item_lang a u) \<and> (\<exists>v. t = v @ r \<and> lang as v)"
    then obtain t u v where "s = u @ t" "item_lang a u" "t = v @ r" "lang as v" by blast
    then have "s = (u @ v) @ r" "lang (a # as) (u @ v)" by auto
    then show "\<exists>w. s = w @ r \<and> lang (a # as) w" by blast
  next
    assume "\<exists>w. s = w @ r \<and> lang (a # as) w"
    then obtain w u v where "s = w @ r" "w = u @ v" "item_lang a u" "lang as v" by auto
    then have "s = u @ (v @ r)" "item_lang a u" "v @ r = v @ r" "lang as v" by simp_all
    then show "\<exists>t. (\<exists>u. s = u @ t \<and> item_lang a u) \<and> (\<exists>v. t = v @ r \<and> lang as v)" by blast
  qed
  finally show ?case .
qed

lemma match_here_empty_iff:
  "match_here p s = [] \<longleftrightarrow> \<not> (\<exists>w r. s = w @ r \<and> lang p w)"
proof -
  have "match_here p s = [] \<longleftrightarrow> (\<forall>r. r \<notin> set (match_here p s))"
    by (cases "match_here p s") auto
  then show ?thesis by (auto simp: match_here_iff)
qed

lemma search_at_None_iff:
  "search_at p s i = None \<longleftrightarrow> \<not> (\<exists>pre w post. s = pre @ w @ post \<and> lang p w)"
proof (induction s arbitrary: i)
  case Nil
  show ?case
    using match_here_empty_iff [of p "[]"] by (auto split: list.splits)
next
  case (Cons c cs)
  have split: "(\<exists>pre w post. c # cs = pre @ w @ post \<and> lang p w)
      \<longleftrightarrow> (\<exists>w post. c # cs = w @ post \<and> lang p w) \<or> (\<exists>pre w post. cs = pre @ w @ post \<and> lang p w)"
  proof
    assume "\<exists>pre w post. c # cs = pre @ w @ post \<and> lang p w"
    then obtain pre w post where h: "c # cs = pre @ w @ post" "lang p w" by blast
    show "(\<exists>w post. c # cs = w @ post \<and> lang p w)
        \<or> (\<exists>pre w post. cs = pre @ w @ post \<and> lang p w)"
    proof (cases pre)
      case Nil
      with h show ?thesis by auto
    next
      case (Cons x pre')
      with h have "cs = pre' @ w @ post" by simp
      with h(2) show ?thesis by blast
    qed
  next
    assume "(\<exists>w post. c # cs = w @ post \<and> lang p w)
        \<or> (\<exists>pre w post. cs = pre @ w @ post \<and> lang p w)"
    then show "\<exists>pre w post. c # cs = pre @ w @ post \<and> lang p w"
    proof
      assume "\<exists>w post. c # cs = w @ post \<and> lang p w"
      then obtain w post where "c # cs = [] @ w @ post" "lang p w" by auto
      then show ?thesis by blast
    next
      assume "\<exists>pre w post. cs = pre @ w @ post \<and> lang p w"
      then obtain pre w post where "c # cs = (c # pre) @ w @ post" "lang p w" by auto
      then show ?thesis by blast
    qed
  qed
  show ?case
  proof (cases "match_here p (c # cs)")
    case Nil
    then have "\<not> (\<exists>w post. c # cs = w @ post \<and> lang p w)"
      using match_here_empty_iff [of p "c # cs"] by simp
    with Nil Cons.IH [of "i + 1"] split show ?thesis by simp
  next
    case (Cons r rs)
    then have "\<exists>w post. c # cs = w @ post \<and> lang p w"
      using match_here_empty_iff [of p "c # cs"] by simp
    with Cons split show ?thesis by simp
  qed
qed

lemma search_at_Some:
  "search_at p s i = Some (st, en) \<Longrightarrow>
     \<exists>pre w post. s = pre @ w @ post \<and> lang p w \<and> st = i + length pre \<and> en = st + length w"
proof (induction s arbitrary: i)
  case Nil
  then obtain r rs where m: "match_here p [] = r # rs" and se: "st = i" "en = i"
    by (auto split: list.splits)
  then have "r \<in> set (match_here p [])" by simp
  then obtain w where "[] = w @ r" "lang p w" by (auto simp: match_here_iff)
  then have "[] = [] @ w @ []" "lang p w" "st = i + length ([]::string)" "en = st + length w"
    using se by simp_all
  then show ?case by blast
next
  case (Cons c cs)
  show ?case
  proof (cases "match_here p (c # cs)")
    case Nil
    with Cons.prems have "search_at p cs (i + 1) = Some (st, en)" by simp
    from Cons.IH [OF this] obtain pre w post
      where "cs = pre @ w @ post" "lang p w" "st = i + 1 + length pre" "en = st + length w"
      by blast
    then have "c # cs = (c # pre) @ w @ post" "lang p w" "st = i + length (c # pre)"
      "en = st + length w" by simp_all
    then show ?thesis by blast
  next
    case (Cons r rs)
    with Cons.prems have se: "st = i" "en = i + (length (c # cs) - length r)" by simp_all
    from Cons have "r \<in> set (match_here p (c # cs))" by simp
    then obtain w where w: "c # cs = w @ r" "lang p w" by (auto simp: match_here_iff)
    then have "length (c # cs) - length r = length w"
      by (metis add_diff_cancel_right' length_append)
    with w se have "c # cs = [] @ w @ r" "lang p w" "st = i + length ([]::string)"
      "en = st + length w" by simp_all
    then show ?thesis by blast
  qed
qed

lemma lang_ConsI: "item_lang a u \<Longrightarrow> lang as v \<Longrightarrow> lang (a # as) (u @ v)"
  by auto

lemma lang_version_number_pattern: "lang version_number_pattern w \<longleftrightarrow> version_like w"
proof
  assume "lang version_number_pattern w"
  then obtain a x b y c where "w = a @ [x] @ b @ [y] @ c" "digit_group a" "digit_group b"
    "digit_group c" "x \<noteq> CHR 0x0A" "y \<noteq> CHR 0x0A"
    by (auto simp: version_number_pattern_def)
  then show "version_like w" unfolding version_like_def by blast
next
  assume "version_like w"
  then obtain a x b y c where "w = a @ [x] @ b @ [y] @ c" "digit_group a" "digit_group b"
    "digit_group c" "x \<noteq> CHR 0x0A" "y \<noteq> CHR 0x0A"
    unfolding version_like_def by blast
  note h = this
  have 1: "lang [Digits] (c @ [])"
    by (rule lang_ConsI) (use h(4) in simp_all)
  have 2: "lang [AnyChar, Digits] ([y] @ c @ [])"
    by (rule lang_ConsI) (use h(6) 1 in simp_all)
  have 3: "lang [Digits, AnyChar, Digits] (b @ [y] @ c @ [])"
    by (rule lang_ConsI) (use h(3) 2 in simp_all)
  have 4: "lang [AnyChar, Digits, AnyChar, Digits] ([x] @ b @ [y] @ c @ [])"
    by (rule lang_ConsI) (use h(5) 3 in simp_all)
  have "lang [Digits, AnyChar, Digits, AnyChar, Digits] (a @ [x] @ b @ [y] @ c @ [])"
    by (rule lang_ConsI) (use h(2) 4 in simp_all)
  with h(1) show "lang version_number_pattern w"
    by (simp add: version_number_pattern_def)
qed

lemma get_version_raises_iff:
  "get_version_number_from_package_name s = Inl AttributeError
     \<longleftrightarrow> \<not> (\<exists>pre w post. s = pre @ w @ post \<and> version_like w)"
  using search_at_None_iff [of version_number_pattern s 0]
  by (auto simp: get_version_number_from_package_name_def search_def lang_version_number_pattern
           split: option.splits)

lemma get_version_shape:
  assumes "get_version_number_from_package_name s = Inr v"
  shows "version_like v \<and> (\<exists>pre post. s = pre @ v @ post)"
proof -
  from assms obtain st en where f: "search_at version_number_pattern s 0 = Some (st, en)"
    and v: "v = take (en - st) (drop st s)"
    by (auto simp: get_version_number_from_package_name_def search_def split: option.splits)
  from search_at_Some [OF f] obtain pre w post
    where "s = pre @ w @ post" "lang version_number_pattern w" "st = length pre"
      "en = st + length w" by auto
  with v show ?thesis by (auto simp: lang_version_number_pattern)
qed
section \<open>The installed-state query, step by step\<close>

text \<open>The substring test is the one of Python.\<close>

lemma take_length_eq_iff: "take (length n) h = n \<longleftrightarrow> (\<exists>post. h = n @ post)"
proof
  assume "take (length n) h = n"
  then have "h = n @ drop (length n) h" by (metis append_take_drop_id)
  then show "\<exists>post. h = n @ post" ..
next
  assume "\<exists>post. h = n @ post"
  then show "take (length n) h = n" by auto
qed

lemma str_in_iff: "str_in needle hay \<longleftrightarrow> (\<exists>pre post. hay = pre @ needle @ post)"
proof (induction hay)
  case Nil
  then show ?case by auto
next
  case (Cons c cs)
  have "(\<exists>pre post. c # cs = pre @ needle @ post)
      \<longleftrightarrow> (\<exists>post. c # cs = needle @ post) \<or> (\<exists>pre post. cs = pre @ needle @ post)"
  proof
    assume "\<exists>pre post. c # cs = pre @ needle @ post"
    then obtain pre post where h: "c # cs = pre @ needle @ post" by blast
    show "(\<exists>post. c # cs = needle @ post) \<or> (\<exists>pre post. cs = pre @ needle @ post)"
    proof (cases pre)
      case Nil
      with h show ?thesis by auto
    next
      case (Cons x pre')
      with h have "cs = pre' @ needle @ post" by simp
      then show ?thesis by blast
    qed
  next
    assume "(\<exists>post. c # cs = needle @ post) \<or> (\<exists>pre post. cs = pre @ needle @ post)"
    then show "\<exists>pre post. c # cs = pre @ needle @ post"
    proof
      assume "\<exists>post. c # cs = needle @ post"
      then obtain post where "c # cs = [] @ needle @ post" by auto
      then show ?thesis by blast
    next
      assume "\<exists>pre post. cs = pre @ needle @ post"
      then obtain pre post where "c # cs = (c # pre) @ needle @ post" by auto
      then show ?thesis by blast
    qed
  qed
  with Cons.IH take_length_eq_iff [of needle "c # cs"] show ?case by simp
qed

lemma check_rpm_exists_result:
  assumes "make_request c query_request = (Inr r0, c1)"
    and "check_rpm_task_status c1 (id_key r0) = (Inr r, c2)"
  shows "check_rpm_exists c component_package_name =
     (if length (matching_packages component_package_name r) = 1
      then (get_version_number_from_package_name
              (packageName (hd (matching_packages component_package_name r))), c2)
      else (Inr [], c2))"
  using assms
  by (simp add: check_rpm_exists_def query_request_def matching_packages_def Let_def)

lemma query_finishes_at_once:
  assumes "answer c 0 = Inr r0" and "answer c 1 = Inr r" and "status r = ''FINISHED''"
  shows "make_request c query_request = (Inr r0, c\<lparr>log := log c @ [query_request]\<rparr>)"
    and "check_rpm_task_status (c\<lparr>log := log c @ [query_request]\<rparr>) (id_key r0)
      = (Inr r, polled (c\<lparr>log := log c @ [query_request]\<rparr>) (status_uri (id_key r0)) (Suc 0))"
proof -
  show "make_request c query_request = (Inr r0, c\<lparr>log := log c @ [query_request]\<rparr>)"
    using assms(1) by (simp add: make_request_def answer_def)
  show "check_rpm_task_status (c\<lparr>log := log c @ [query_request]\<rparr>) (id_key r0)
      = (Inr r, polled (c\<lparr>log := log c @ [query_request]\<rparr>) (status_uri (id_key r0)) (Suc 0))"
    by (rule poll_finished) (use assms in simp_all)
qed

lemma version_like_nonempty: "version_like v \<Longrightarrow> v \<noteq> []"
  by (auto simp: version_like_def)

lemma is_installed_not_one_match:
  assumes "make_request (client self) query_request = (Inr r0, c1)"
    and "check_rpm_task_status c1 (id_key r0) = (Inr r, c2)"
    and "length (matching_packages (get_component_package_name (metadata self)) r) \<noteq> 1"
  shows "is_installed self =
     (Inr \<lparr>installed = False, installed_version = [],
           latest_version = get_latest_version (metadata self)\<rparr>,
      self\<lparr>client := c2\<rparr>)"
  using assms(3) by (simp add: is_installed_def check_rpm_exists_result [OF assms(1,2)])

lemma is_installed_one_match:
  assumes "make_request (client self) query_request = (Inr r0, c1)"
    and "check_rpm_task_status c1 (id_key r0) = (Inr r, c2)"
    and "matching_packages (get_component_package_name (metadata self)) r = [p]"
    and "get_version_number_from_package_name (packageName p) = Inr v"
  shows "is_installed self =
     (Inr \<lparr>installed = True, installed_version = v,
           latest_version = get_latest_version (metadata self)\<rparr>,
      self\<lparr>client := c2\<rparr>)"
proof -
  have "v \<noteq> []" using get_version_shape [OF assms(4)] version_like_nonempty by blast
  with assms(3,4) show ?thesis
    by (simp add: is_installed_def check_rpm_exists_result [OF assms(1,2)])
qed

lemma installed_version_is_version_like:
  assumes "is_installed self = (Inr vd, self')" and "installed vd"
  shows "version_like (installed_version vd)"
proof -
  from assms obtain c' where c: "check_rpm_exists (client self)
      (get_component_package_name (metadata self)) = (Inr (installed_version vd), c')"
    and ne: "installed_version vd \<noteq> []"
    by (auto simp: is_installed_def split: prod.splits sum.splits)
  from c ne obtain s where "get_version_number_from_package_name s = Inr (installed_version vd)"
    by (auto simp: check_rpm_exists_def Let_def split: prod.splits sum.splits if_splits)
  then show ?thesis using get_version_shape by blast
qed

lemma dotted_version_chars:
  "dotted_version w \<Longrightarrow> list_all (\<lambda>ch. is_digit ch \<or> ch = CHR ''.'') w"
  by (auto simp: dotted_version_def digit_group_def list_all_iff)
section \<open>Properties of the chunked upload\<close>

text \<open>
  Claim C1. A file of \<open>S > 0\<close> bytes is uploaded in chunks of 1 MiB; every chunk request
  is answered. Then the upload succeeds, and the requests it sent announce, in their
  \<^verbatim>\<open>Content-Range\<close> headers, the byte ranges \<open>chunk_ranges S\<close> and carry exactly
  the bytes of these ranges. The ranges tile \<open>[0, S)\<close>: the first starts at 0, each is
  not empty and starts where the one before ended (no gap, no overlap), and the last one
  ends at \<open>S\<close>, so that its header ends at \<open>S - 1\<close>. Every range but the last is a full
  chunk, whose header ends at its start plus 1048576 minus 1. A file of 2621440 bytes
  (2.5 MiB) gives exactly three requests, with the ranges \<^verbatim>\<open>0-1048575/2621440\<close>,
  \<^verbatim>\<open>1048576-2097151/2621440\<close> and \<^verbatim>\<open>2097152-2621439/2621440\<close>.
\<close>

theorem upload_ranges_tile_the_file:
  assumes "fs file_name = Some data" and "data \<noteq> []"
    and "\<forall>k < num_chunks (length data). succeeds c k"
  shows "let (result, c', fs') = upload_rpm c fs file_name delete_file;
             S = int (length data);
             ranges = chunk_ranges (length data)
         in result = Inr ()
          \<and> map (\<lambda>r. map_of (headers r) ''Content-Range'') (sent c c')
              = map (\<lambda>(s, e). Some (str s @ ''-'' @ str (e - 1) @ ''/'' @ str S)) ranges
          \<and> map body (sent c c')
              = map (\<lambda>(s, e). Some (BytesBody (take (nat (e - s)) (drop (nat s) data)))) ranges
          \<and> tiles 0 ranges S
          \<and> (\<forall>(s, e) \<in> set (butlast ranges). e - 1 = s + 1048576 - 1)
          \<and> (\<forall>(s, e) \<in> set ranges. e - s \<le> 1048576)
          \<and> snd (last ranges) - 1 = S - 1
          \<and> (length data = 2621440 \<longrightarrow>
               map (\<lambda>r. map_of (headers r) ''Content-Range'') (sent c c')
                = [Some ''0-1048575/2621440'', Some ''1048576-2097151/2621440'',
                   Some ''2097152-2621439/2621440''])"
proof -
  let ?n = "length data"
  let ?reqs = "map (chunk_request (upload_uri file_name) data) [0..<num_chunks ?n]"
  have pos: "0 < ?n" using assms(2) by simp
  have run: "upload_rpm c fs file_name delete_file
      = (Inr (), c\<lparr>log := log c @ ?reqs\<rparr>, if delete_file then os_remove fs file_name else fs)"
    using assms(1,3) by (rule upload_rpm_success)
  have hdr: "map (\<lambda>r. map_of (headers r) ''Content-Range'') ?reqs
      = map (\<lambda>(s, e). Some (str s @ ''-'' @ str (e - 1) @ ''/'' @ str (int ?n))) (chunk_ranges ?n)"
    by (simp add: chunk_ranges_def chunk_request_def upload_headers_def split_beta)
  have bdy: "map body ?reqs
      = map (\<lambda>(s, e). Some (BytesBody (take (nat (e - s)) (drop (nat s) data)))) (chunk_ranges ?n)"
    by (simp add: chunk_ranges_def chunk_request_def split_beta chunk_body)
  have full: "\<forall>(s, e) \<in> set (butlast (chunk_ranges ?n)). e - 1 = s + 1048576 - 1"
    by (auto simp: max_chunk_def dest!: chunk_ranges_butlast)
  have size: "\<forall>(s, e) \<in> set (chunk_ranges ?n). e - s \<le> 1048576"
  proof -
    have "e - s \<le> int max_chunk" if "chunk_range ?n k = (s, e)" for k s e
      using chunk_range_size [of ?n k] that by simp
    then show ?thesis by (auto simp: chunk_ranges_def max_chunk_def)
  qed
  have scen: "?n = 2621440 \<longrightarrow>
      map (\<lambda>r. map_of (headers r) ''Content-Range'') ?reqs
       = [Some ''0-1048575/2621440'', Some ''1048576-2097151/2621440'',
          Some ''2097152-2621439/2621440'']"
    using content_ranges_2_5_MiB [of data "upload_uri file_name"] by blast
  show ?thesis
    unfolding run Let_def prod.case sent_append
    using hdr bdy tiles_chunk_ranges [OF pos] full size chunk_ranges_last [OF pos] scen
    by simp
qed

text \<open>The 2.5 MiB package file, uploaded to a device that accepts every chunk.\<close>

theorem upload_ranges_tile_the_file_witness:
  "fst (upload_rpm willing_device tmp_fs rpm_path True) = Inr ()
   \<and> map (\<lambda>r. map_of (headers r) ''Content-Range'')
        (sent willing_device (fst (snd (upload_rpm willing_device tmp_fs rpm_path True))))
      = [Some ''0-1048575/2621440'', Some ''1048576-2097151/2621440'',
         Some ''2097152-2621439/2621440'']"
proof -
  have h1: "tmp_fs rpm_path = Some rpm_content" by (simp add: tmp_fs_def)
  have h2: "rpm_content \<noteq> []" by (simp add: rpm_content_def)
  have h3: "\<forall>k < num_chunks (length rpm_content). succeeds willing_device k"
    by (simp add: succeeds_def answer_def willing_device_def)
  have len: "length rpm_content = 2621440" by (simp add: rpm_content_def)
  from upload_ranges_tile_the_file [of tmp_fs rpm_path rpm_content willing_device True,
      unfolded Let_def split_beta] h1 h2 h3 len
  show ?thesis by blast
qed
text \<open>
  Claim C7. Every request the uploader sends, whether or not the upload then goes on,
  is the request of the chunk with its index \<open>i\<close>: with \<open>start\<close> the offset of the
  chunk and \<open>end\<close> the offset after its last byte, it carries exactly the headers
  \<^verbatim>\<open>Content-Range: start-(end-1)/total\<close>, \<^verbatim>\<open>Content-Length: end\<close> (the end
  offset, not the number of bytes of the chunk) and
  \<^verbatim>\<open>Content-Type: application/octet-stream\<close>, and its body is the bytes
  \<open>[start, end)\<close> of the file, passed as they are (\<^verbatim>\<open>body_content_type='raw'\<close>), not
  as JSON.
\<close>

theorem upload_request_contents:
  assumes "fs file_name = Some data"
  shows "let (result, c', fs') = upload_rpm c fs file_name delete_file
         in \<forall>i < length (sent c c').
              (let start = int (i * 1048576);
                   end = min (start + 1048576) (int (length data));
                   total = int (length data)
               in sent c c' ! i =
                    \<lparr>uri = upload_uri file_name, http_method = ''POST'',
                     headers =
                       [(''Content-Range'', str start @ ''-'' @ str (end - 1) @ ''/'' @ str total),
                        (''Content-Length'', str end),
                        (''Content-Type'', ''application/octet-stream'')],
                     body = Some (BytesBody (take (nat (end - start)) (drop (nat start) data))),
                     body_content_type = ''raw''\<rparr>)"
proof -
  let ?reqs = "map (chunk_request (upload_uri file_name) data) [0..<num_chunks (length data)]"
  obtain m where m: "m \<le> length ?reqs" "sent c (snd (send_all c ?reqs)) = take m ?reqs"
    using send_all_sent_prefix [of ?reqs c] by blast
  have c': "fst (snd (upload_rpm c fs file_name delete_file)) = snd (send_all c ?reqs)"
    using assms by (simp add: upload_rpm_send_all split: prod.splits sum.splits)
  have "sent c (fst (snd (upload_rpm c fs file_name delete_file))) ! i
      = chunk_request (upload_uri file_name) data i"
    if "i < length (sent c (fst (snd (upload_rpm c fs file_name delete_file))))" for i
    using that m by (simp add: c')
  then show ?thesis
    by (simp add: split_beta chunk_request_explicit)
qed

text \<open>
  The third request of the 2.5 MiB file: its \<^verbatim>\<open>Content-Length\<close> is the end offset
  2621440, while its body has 524288 bytes.
\<close>

theorem upload_request_contents_witness:
  "sent willing_device (fst (snd (upload_rpm willing_device tmp_fs rpm_path True))) ! 2
     = \<lparr>uri = ''/mgmt/shared/file-transfer/uploads/f5-appsvcs-3.10.0-5.noarch.rpm'',
        http_method = ''POST'',
        headers = [(''Content-Range'', ''2097152-2621439/2621440''),
                   (''Content-Length'', ''2621440''),
                   (''Content-Type'', ''application/octet-stream'')],
        body = Some (BytesBody (replicate 524288 0)), body_content_type = ''raw''\<rparr>"
proof -
  have h: "tmp_fs rpm_path = Some rpm_content" by (simp add: tmp_fs_def)
  have "\<forall>k < num_chunks (length rpm_content). succeeds willing_device k"
    by (simp add: succeeds_def answer_def willing_device_def)
  with h upload_rpm_success [of tmp_fs rpm_path rpm_content willing_device True]
  have len: "2 < length (sent willing_device
      (fst (snd (upload_rpm willing_device tmp_fs rpm_path True))))"
    by (simp add: rpm_content_def num_chunks_2_5_MiB)
  from upload_request_contents [of tmp_fs rpm_path rpm_content willing_device True,
      unfolded split_beta Let_def] h len
  have "sent willing_device (fst (snd (upload_rpm willing_device tmp_fs rpm_path True))) ! 2
     = \<lparr>uri = upload_uri rpm_path, http_method = ''POST'',
        headers =
          [(''Content-Range'',
            str (int (2 * 1048576)) @ ''-''
              @ str (min (int (2 * 1048576) + 1048576) (int (length rpm_content)) - 1) @ ''/''
              @ str (int (length rpm_content))),
           (''Content-Length'', str (min (int (2 * 1048576) + 1048576) (int (length rpm_content)))),
           (''Content-Type'', ''application/octet-stream'')],
        body = Some (BytesBody
          (take (nat (min (int (2 * 1048576) + 1048576) (int (length rpm_content))
                      - int (2 * 1048576)))
             (drop (nat (int (2 * 1048576))) rpm_content))),
        body_content_type = ''raw''\<rparr>"
    by blast
  then show ?thesis
    by (simp add: upload_uri_def rpm_path_def rpm_content_def str_def str_nat.simps digit_char_def)
qed

text \<open>
  Claim C3. With \<^verbatim>\<open>delete_file\<close> true, the local file is gone after the upload
  exactly when every chunk request was answered, and then the upload returned and all
  chunks were sent. When the request of chunk \<open>k\<close> is the first that raises, its error
  is the result of the upload, no later chunk is sent and the file system is as it was:
  the file is still there for a retry.
\<close>

theorem upload_deletes_only_after_every_chunk:
  assumes "fs file_name = Some data"
  shows "let (result, c', fs') = upload_rpm c fs file_name True;
             n = num_chunks (length data)
         in (fs' file_name = None \<longleftrightarrow> (\<forall>k < n. succeeds c k))
          \<and> (result = Inr () \<longleftrightarrow> (\<forall>k < n. succeeds c k))
          \<and> ((\<forall>k < n. succeeds c k) \<longrightarrow> length (sent c c') = n \<and> fs' = fs(file_name := None))
          \<and> (\<forall>k e. k < n \<and> (\<forall>i < k. succeeds c i) \<and> answer c k = Inl e \<longrightarrow>
                result = Inl e \<and> fs' = fs \<and> length (sent c c') = Suc k)"
proof -
  let ?n = "num_chunks (length data)"
  let ?reqs = "map (chunk_request (upload_uri file_name) data) [0..<?n]"
  have run: "upload_rpm c fs file_name True =
     (case send_all c ?reqs of
        (Inl e, c') \<Rightarrow> (Inl e, c', fs)
      | (Inr _, c') \<Rightarrow> (Inr (), c', os_remove fs file_name))"
    using assms by (simp add: upload_rpm_send_all)
  have ok: "fst (send_all c ?reqs) = Inr () \<longleftrightarrow> (\<forall>k < ?n. succeeds c k)"
    by (simp add: send_all_ok_iff)
  have all: "send_all c ?reqs = (Inr (), c\<lparr>log := log c @ ?reqs\<rparr>)" if "\<forall>k < ?n. succeeds c k"
    by (rule send_all_success) (use that in simp)
  have fail: "send_all c ?reqs = (Inl e, c\<lparr>log := log c @ take (Suc k) ?reqs\<rparr>)"
    if "k < ?n" "\<forall>i < k. succeeds c i" "answer c k = Inl e" for k e
    by (rule send_all_failure) (use that in simp_all)
  have 1: "snd (snd (upload_rpm c fs file_name True)) file_name = None
      \<longleftrightarrow> (\<forall>k < ?n. succeeds c k)"
    using ok assms by (auto simp: run os_remove_def split: prod.splits sum.splits)
  have 2: "fst (upload_rpm c fs file_name True) = Inr () \<longleftrightarrow> (\<forall>k < ?n. succeeds c k)"
    using ok by (auto simp: run split: prod.splits sum.splits)
  have 3: "length (sent c (fst (snd (upload_rpm c fs file_name True)))) = ?n
      \<and> snd (snd (upload_rpm c fs file_name True)) = fs(file_name := None)"
    if "\<forall>k < ?n. succeeds c k"
    using all [OF that] by (simp add: run os_remove_def)
  have 4: "fst (upload_rpm c fs file_name True) = Inl e
      \<and> snd (snd (upload_rpm c fs file_name True)) = fs
      \<and> length (sent c (fst (snd (upload_rpm c fs file_name True)))) = Suc k"
    if "k < ?n" "\<forall>i < k. succeeds c i" "answer c k = Inl e" for k e
    using fail [OF that] that(1) by (simp add: run)
  show ?thesis
    unfolding split_beta Let_def using 1 2 3 4 by blast
qed

text \<open>The device refuses the second chunk of the 2.5 MiB file: the file stays.\<close>

theorem upload_deletes_only_after_every_chunk_witness:
  "fst (upload_rpm flaky_device tmp_fs rpm_path True) = Inl (TransportError ''503 Service Unavailable'')
   \<and> snd (snd (upload_rpm flaky_device tmp_fs rpm_path True)) rpm_path = Some rpm_content
   \<and> length (sent flaky_device (fst (snd (upload_rpm flaky_device tmp_fs rpm_path True)))) = 2"
proof -
  have h: "tmp_fs rpm_path = Some rpm_content" by (simp add: tmp_fs_def)
  have k: "1 < num_chunks (length rpm_content)"
    by (simp add: rpm_content_def num_chunks_2_5_MiB)
  have before: "\<forall>i < 1. succeeds flaky_device i"
    by (simp add: succeeds_def answer_def flaky_device_def)
  have at: "answer flaky_device 1 = Inl (TransportError ''503 Service Unavailable'')"
    by (simp add: answer_def flaky_device_def)
  from upload_deletes_only_after_every_chunk [of tmp_fs rpm_path rpm_content flaky_device,
      unfolded split_beta Let_def] h k before at
  have "fst (upload_rpm flaky_device tmp_fs rpm_path True)
        = Inl (TransportError ''503 Service Unavailable'')
      \<and> snd (snd (upload_rpm flaky_device tmp_fs rpm_path True)) = tmp_fs
      \<and> length (sent flaky_device (fst (snd (upload_rpm flaky_device tmp_fs rpm_path True))))
        = Suc 1"
    by blast
  with h show ?thesis by simp
qed
section \<open>Properties of task polling\<close>

text \<open>
  Claim C2, as amended. Every poll is answered; \<open>rs i\<close> is the response to poll
  \<open>i\<close>, counted from 0. The loop makes at most 122 polls: \<^verbatim>\<open>count\<close> is the number
  of polls before the current one, and 121 is its first value above \<^verbatim>\<open>max_count\<close>.
  \<^item> The method returns a payload exactly when the first \<^verbatim>\<open>FINISHED\<close> or
    \<^verbatim>\<open>FAILED\<close> status among these polls is \<^verbatim>\<open>FINISHED\<close>, and the payload is
    the response of that poll.
  \<^item> It raises \<^verbatim>\<open>Exception(m)\<close> exactly when that first status is \<^verbatim>\<open>FAILED\<close>
    and \<open>m\<close> is the \<^verbatim>\<open>errorMessage\<close> of that response, or when none of the 122
    polls reports \<^verbatim>\<open>FINISHED\<close> or \<^verbatim>\<open>FAILED\<close> and \<open>m\<close> is
    \<^verbatim>\<open>Max count exceeded\<close>. Failure and timeout are the same class of exception
    and differ in the message only.
  \<^item> It polls the address of the task and nothing else, up to the poll that decides, or
    122 times.
\<close>

theorem poll_outcome:
  assumes "\<forall>i \<le> 121. answer c i = Inr (rs i)"
  shows "let (result, c') = check_rpm_task_status c task_id
         in (\<forall>p. result = Inr p \<longleftrightarrow>
                (\<exists>j \<le> 121. p = rs j \<and> status (rs j) = ''FINISHED'' \<and>
                           (\<forall>i < j. \<not> terminal (rs i))))
          \<and> (\<forall>m. result = Inl (Exception m) \<longleftrightarrow>
                (\<exists>j \<le> 121. m = errorMessage (rs j) \<and> status (rs j) = ''FAILED'' \<and>
                           (\<forall>i < j. \<not> terminal (rs i)))
                \<or> (m = ''Max count exceeded'' \<and> (\<forall>i \<le> 121. \<not> terminal (rs i))))
          \<and> (\<forall>j \<le> 121. terminal (rs j) \<and> (\<forall>i < j. \<not> terminal (rs i)) \<longrightarrow>
                sent c c' = replicate (j + 1) (get_request (PKG_MGMT_URI @ ''/'' @ task_id)))
          \<and> ((\<forall>i \<le> 121. \<not> terminal (rs i)) \<longrightarrow>
                sent c c' = replicate 122 (get_request (PKG_MGMT_URI @ ''/'' @ task_id)))"
proof -
  let ?R = "check_rpm_task_status c task_id"
  let ?u = "status_uri task_id"
  have m: "Suc max_count = 121" by (simp add: max_count_def)
  have ans: "\<exists>r. answer c i = Inr r \<and> \<not> terminal r" if "i \<le> 121" "\<not> terminal (rs i)" for i
    using assms that by simp
  have fin: "?R = (Inr (rs j), polled c ?u (Suc j))"
    if "j \<le> 121" "status (rs j) = ''FINISHED''" "\<forall>i < j. \<not> terminal (rs i)" for j
  proof (rule poll_finished)
    show "j \<le> Suc max_count" using that(1) m by simp
    show "answer c j = Inr (rs j)" using assms that(1) by simp
    show "status (rs j) = ''FINISHED''" by (rule that(2))
    show "\<exists>r. answer c i = Inr r \<and> \<not> terminal r" if "i < j" for i
      using ans [of i] that \<open>j \<le> 121\<close> \<open>\<forall>i < j. \<not> terminal (rs i)\<close> by simp
  qed
  have fail: "?R = (Inl (Exception (errorMessage (rs j))), polled c ?u (Suc j))"
    if "j \<le> 121" "status (rs j) = ''FAILED''" "\<forall>i < j. \<not> terminal (rs i)" for j
  proof (rule poll_failed)
    show "j \<le> Suc max_count" using that(1) m by simp
    show "answer c j = Inr (rs j)" using assms that(1) by simp
    show "status (rs j) = ''FAILED''" by (rule that(2))
    show "\<exists>r. answer c i = Inr r \<and> \<not> terminal r" if "i < j" for i
      using ans [of i] that \<open>j \<le> 121\<close> \<open>\<forall>i < j. \<not> terminal (rs i)\<close> by simp
  qed
  have tmo: "?R = (Inl (Exception ''Max count exceeded''), polled c ?u 122)"
    if "\<forall>i \<le> 121. \<not> terminal (rs i)"
  proof -
    have "?R = (Inl (Exception ''Max count exceeded''), polled c ?u (max_count + 2))"
      by (rule poll_timeout) (use ans that m in simp)
    then show ?thesis by (simp add: max_count_def)
  qed
  define fin' where "fin' k \<longleftrightarrow> status (rs k) = ''FINISHED''" for k
  define fail' where "fail' k \<longleftrightarrow> status (rs k) = ''FAILED''" for k
  define first where "first k \<longleftrightarrow> (\<forall>i < k. \<not> terminal (rs i))" for k
  have excl: "\<not> (fin' k \<and> fail' k)" for k by (simp add: fin'_def fail'_def)
  have tcases: "terminal (rs k) \<longleftrightarrow> fin' k \<or> fail' k" for k
    by (simp add: terminal_def fin'_def fail'_def)
  have uniq: "k = l" if "terminal (rs k)" "first k" "terminal (rs l)" "first l" for k l
    using first_terminal_unique [of rs k l] that by (simp add: first_def)
  have fin2: "fst ?R = Inr (rs k)" if "k \<le> 121" "fin' k" "first k" for k
    using fin [of k] that by (simp add: fin'_def first_def)
  have fail2: "fst ?R = Inl (Exception (errorMessage (rs k)))" if "k \<le> 121" "fail' k" "first k" for k
    using fail [of k] that by (simp add: fail'_def first_def)
  have tmo2: "fst ?R = Inl (Exception ''Max count exceeded'')" if "\<forall>i \<le> 121. \<not> terminal (rs i)"
    using tmo [OF that] by simp
  have A': "fst ?R = Inr p \<longleftrightarrow> (\<exists>k \<le> 121. p = rs k \<and> fin' k \<and> first k)" for p
  proof (cases rule: first_terminal_cases [of 121 rs])
    case none
    then have "\<not> (\<exists>k \<le> 121. p = rs k \<and> fin' k \<and> first k)" using tcases by blast
    moreover have "fst ?R \<noteq> Inr p" using tmo2 [OF none] by simp
    ultimately show ?thesis by blast
  next
    case (some j)
    then have fj: "first j" by (simp add: first_def)
    show ?thesis
    proof (cases "fin' j")
      case True
      have "fst ?R = Inr p \<longleftrightarrow> p = rs j"
        unfolding fin2 [OF some(1) True fj] by (simp add: eq_commute [of p])
      moreover have "k = j" if "fin' k" "first k" for k
        using uniq [of k j] that some(2) fj tcases by blast
      then have "(\<exists>k \<le> 121. p = rs k \<and> fin' k \<and> first k) \<longleftrightarrow> p = rs j"
        using some(1) True fj by blast
      ultimately show ?thesis by blast
    next
      case False
      with some(2) tcases have f: "fail' j" by blast
      have "fst ?R \<noteq> Inr p" using fail2 [OF some(1) f fj] by simp
      moreover have "\<not> (fin' k \<and> first k)" for k
        using uniq [of k j] some(2) fj tcases False by blast
      ultimately show ?thesis by blast
    qed
  qed
  have B': "fst ?R = Inl (Exception m) \<longleftrightarrow>
      (\<exists>k \<le> 121. m = errorMessage (rs k) \<and> fail' k \<and> first k)
      \<or> (m = ''Max count exceeded'' \<and> (\<forall>i \<le> 121. \<not> terminal (rs i)))" for m
  proof (cases rule: first_terminal_cases [of 121 rs])
    case none
    then have "\<not> (\<exists>k \<le> 121. m = errorMessage (rs k) \<and> fail' k \<and> first k)"
      using tcases by blast
    moreover have "fst ?R = Inl (Exception m) \<longleftrightarrow> m = ''Max count exceeded''"
      unfolding tmo2 [OF none] by (simp add: eq_commute [of m])
    ultimately show ?thesis using none by blast
  next
    case (some j)
    then have fj: "first j" by (simp add: first_def)
    have no: "\<not> (\<forall>i \<le> 121. \<not> terminal (rs i))" using some by blast
    show ?thesis
    proof (cases "fin' j")
      case True
      have "fst ?R \<noteq> Inl (Exception m)" using fin2 [OF some(1) True fj] by simp
      moreover have "\<not> (fail' k \<and> first k)" for k
        using uniq [of k j] some(2) fj tcases True excl by blast
      ultimately show ?thesis using no by blast
    next
      case False
      with some(2) tcases have f: "fail' j" by blast
      have "fst ?R = Inl (Exception m) \<longleftrightarrow> m = errorMessage (rs j)"
        unfolding fail2 [OF some(1) f fj] by (simp add: eq_commute [of m])
      moreover have "k = j" if "fail' k" "first k" for k
        using uniq [of k j] that some(2) fj tcases by blast
      then have "(\<exists>k \<le> 121. m = errorMessage (rs k) \<and> fail' k \<and> first k)
          \<longleftrightarrow> m = errorMessage (rs j)"
        using some(1) f fj by blast
      ultimately show ?thesis using no by blast
    qed
  qed
  have A: "fst ?R = Inr p \<longleftrightarrow>
      (\<exists>j \<le> 121. p = rs j \<and> status (rs j) = ''FINISHED'' \<and> (\<forall>i < j. \<not> terminal (rs i)))" for p
    using A' [of p] unfolding fin'_def first_def .
  have B: "fst ?R = Inl (Exception m) \<longleftrightarrow>
      (\<exists>j \<le> 121. m = errorMessage (rs j) \<and> status (rs j) = ''FAILED'' \<and>
                 (\<forall>i < j. \<not> terminal (rs i)))
      \<or> (m = ''Max count exceeded'' \<and> (\<forall>i \<le> 121. \<not> terminal (rs i)))" for m
    using B' [of m] unfolding fail'_def first_def .
  have C: "sent c (snd ?R) = replicate (j + 1) (get_request (PKG_MGMT_URI @ ''/'' @ task_id))"
    if "j \<le> 121" "terminal (rs j)" "\<forall>i < j. \<not> terminal (rs i)" for j
  proof (cases "status (rs j) = ''FINISHED''")
    case True
    from fin [OF that(1) True that(3)] show ?thesis by (simp add: status_uri_def)
  next
    case False
    with that(2) have f: "status (rs j) = ''FAILED''" by (simp add: terminal_def)
    from fail [OF that(1) f that(3)] show ?thesis by (simp add: status_uri_def)
  qed
  have D: "sent c (snd ?R) = replicate 122 (get_request (PKG_MGMT_URI @ ''/'' @ task_id))"
    if "\<forall>i \<le> 121. \<not> terminal (rs i)"
    using tmo [OF that] by (simp add: status_uri_def)
  show ?thesis
    unfolding split_beta Let_def using A B C D by blast
qed

text \<open>
  Three polls report \<^verbatim>\<open>RUNNING\<close>, the fourth \<^verbatim>\<open>FINISHED\<close>: the method returns
  the fourth response after exactly four polls.
\<close>

theorem poll_outcome_witness:
  "fst (check_rpm_task_status slow_device ''42'') = Inr ok_response
   \<and> length (sent slow_device (snd (check_rpm_task_status slow_device ''42''))) = 4"
proof -
  define rs where "rs = (\<lambda>i::nat. if i < 3 then running_response else ok_response)"
  have h: "\<forall>i \<le> 121. answer slow_device i = Inr (rs i)"
    by (simp add: answer_def slow_device_def rs_def)
  have j: "(3::nat) \<le> 121" "ok_response = rs 3" "status (rs 3) = ''FINISHED''"
    "terminal (rs 3)" "\<forall>i < 3. \<not> terminal (rs i)"
    by (simp_all add: rs_def ok_response_def running_response_def terminal_def)
  from poll_outcome [of slow_device rs "''42''", unfolded split_beta Let_def] h j
  have "fst (check_rpm_task_status slow_device ''42'') = Inr ok_response"
    and "sent slow_device (snd (check_rpm_task_status slow_device ''42''))
      = replicate (3 + 1) (get_request (PKG_MGMT_URI @ ''/'' @ ''42''))"
    by blast+
  then show ?thesis by simp
qed

text \<open>
  Claim C2 as stated fails: the exception of the timeout is not distinct from the one of
  a failed task. A task that failed at the first poll with the error message
  \<^verbatim>\<open>Max count exceeded\<close> and a task that never leaves \<^verbatim>\<open>RUNNING\<close> raise the
  same exception, so the timeout exception is raised although a poll reported
  \<^verbatim>\<open>FAILED\<close>.
\<close>

theorem timeout_is_not_distinct_from_failure:
  "answer failing_device 0 = Inr failed_response
   \<and> status failed_response = ''FAILED''
   \<and> fst (check_rpm_task_status failing_device ''42'') = Inl (Exception ''Max count exceeded'')
   \<and> fst (check_rpm_task_status busy_device ''42'') = Inl (Exception ''Max count exceeded'')"
proof -
  have a: "answer failing_device 0 = Inr failed_response"
    by (simp add: answer_def failing_device_def)
  have s: "status failed_response = ''FAILED''" by (simp add: failed_response_def)
  have "check_rpm_task_status failing_device ''42''
      = (Inl (Exception (errorMessage failed_response)),
         polled failing_device (status_uri ''42'') (Suc 0))"
    by (rule poll_failed) (use a s in simp_all)
  then have f: "fst (check_rpm_task_status failing_device ''42'')
      = Inl (Exception ''Max count exceeded'')"
    by (simp add: failed_response_def)
  have "check_rpm_task_status busy_device ''42''
      = (Inl (Exception ''Max count exceeded''),
         polled busy_device (status_uri ''42'') (max_count + 2))"
    by (rule poll_timeout)
       (simp add: answer_def busy_device_def running_response_def terminal_def)
  with a s f show ?thesis by simp
qed
section \<open>The legacy client against the current one\<close>

text \<open>
  Claim C6, as amended. On the same management client, file system and arguments, the
  legacy \<^verbatim>\<open>_upload_rpm\<close> and the current one give the same result, send the same
  requests and leave the same files; the two \<^verbatim>\<open>_check_rpm_task_status\<close> make the
  same polls and raise the same errors, and where the current one returns the response
  of the finished task the legacy one returns the \<^verbatim>\<open>status\<close> of that response;
  the two \<^verbatim>\<open>_install_rpm\<close>, which drop that value, agree.
\<close>

theorem legacy_client_agrees:
  "legacy_upload_rpm c fs file_name delete_file = upload_rpm c fs file_name delete_file
   \<and> snd (legacy_check_rpm_task_status c task_id) = snd (check_rpm_task_status c task_id)
   \<and> fst (legacy_check_rpm_task_status c task_id)
        = map_sum id status (fst (check_rpm_task_status c task_id))
   \<and> legacy_install_rpm c package_path = install_rpm c package_path"
proof -
  have chk: "legacy_check_rpm_task_status c t
      = map_prod (map_sum id status) id (check_rpm_task_status c t)" for c t
    by (simp add: legacy_check_rpm_task_status_def check_rpm_task_status_def legacy_check_loop_eq)
  have "legacy_upload_rpm c fs file_name delete_file = upload_rpm c fs file_name delete_file"
    unfolding legacy_upload_rpm_def upload_rpm_def legacy_upload_loop_eq ..
  moreover have "legacy_install_rpm c package_path = install_rpm c package_path"
    by (auto simp: legacy_install_rpm_def install_rpm_def chk map_prod_def
             split: prod.splits sum.splits)
  ultimately show ?thesis by (simp add: chk)
qed

text \<open>
  Claim C6 as stated fails: on a finished task the two polling methods do not return the
  same value. The legacy method returns the string \<^verbatim>\<open>'FINISHED'\<close>, the current one
  the whole response with its \<^verbatim>\<open>queryResponse\<close>.
\<close>

theorem legacy_poll_returns_status_only:
  "fst (legacy_check_rpm_task_status as3_device ''42'') = Inr ''FINISHED''
   \<and> fst (check_rpm_task_status as3_device ''42'') = Inr as3_response
   \<and> map_sum id PyStr (fst (legacy_check_rpm_task_status as3_device ''42''))
       \<noteq> map_sum id PyDict (fst (check_rpm_task_status as3_device ''42''))"
proof -
  have a: "answer as3_device 0 = Inr as3_response" by (simp add: answer_def as3_device_def)
  have s: "status as3_response = ''FINISHED''" by (simp add: as3_response_def)
  have cur: "check_rpm_task_status as3_device ''42''
      = (Inr as3_response, polled as3_device (status_uri ''42'') (Suc 0))"
    by (rule poll_finished) (use a s in simp_all)
  have "legacy_check_rpm_task_status as3_device ''42''
      = map_prod (map_sum id status) id (check_rpm_task_status as3_device ''42'')"
    by (simp add: legacy_check_rpm_task_status_def check_rpm_task_status_def legacy_check_loop_eq)
  then have leg: "fst (legacy_check_rpm_task_status as3_device ''42'') = Inr ''FINISHED''"
    by (simp add: cur s)
  show ?thesis by (simp add: leg cur)
qed
section \<open>Properties of uninstall\<close>

text \<open>
  Claim C9. The client has no logger (the constructor was called without the keyword
  \<^verbatim>\<open>logger\<close>), the remote \<^verbatim>\<open>UNINSTALL\<close> task ran to its end, and some
  dependent of the component has all its version constraints satisfied by the version of
  the client. Then \<^verbatim>\<open>uninstall\<close> raises \<^verbatim>\<open>AttributeError\<close>, from
  \<^verbatim>\<open>self.logger.warning\<close>, and the management client is in the state the finished
  task left it in: the package is already uninstalled on the device.
\<close>

theorem uninstall_without_logger_raises:
  assumes "logger self = None"
    and "uninstall_rpm (client self) (get_package_name (metadata self)) = (Inr (), c')"
    and "(name, dep) \<in> set (get_component_dependencies (metadata self))"
    and "all_constraints_hold compare_versions (version self) dep"
  shows "uninstall compare_versions self = (Inl AttributeError, self\<lparr>client := c'\<rparr>)"
proof -
  have "list_ex (\<lambda>(name, dep). all_constraints_hold compare_versions (version self) dep)
      (get_component_dependencies (metadata self))"
    using assms(3,4) by (auto simp: list_ex_iff)
  then have "check_dependencies compare_versions (version self) None
      (get_component_dependencies (metadata self)) = (Inl AttributeError, None)"
    by (simp add: check_dependencies_no_logger)
  with assms(1,2) show ?thesis
    by (simp add: uninstall_def check_for_dependency_def)
qed

text \<open>
  A client for \<^verbatim>\<open>ts\<close> built without a logger: its dependent declares no
  constraint, so all of them hold; the \<^verbatim>\<open>UNINSTALL\<close> request went out first.
\<close>

theorem uninstall_without_logger_raises_witness:
  "fst (uninstall (\<lambda>v w op. False)
          (new_operation_client as3_device ''ts'' ''1.4.0'' ts_metadata None))
     = Inl AttributeError
   \<and> hd (log (client (snd (uninstall (\<lambda>v w op. False)
          (new_operation_client as3_device ''ts'' ''1.4.0'' ts_metadata None)))))
     = post_request PKG_MGMT_URI
         [(''operation'', ''UNINSTALL''), (''packageName'', ''f5-telemetry-1.4.0-1.noarch'')]"
proof -
  let ?self = "new_operation_client as3_device ''ts'' ''1.4.0'' ts_metadata None"
  let ?c' = "polled (as3_device\<lparr>log := log as3_device @ [post_request PKG_MGMT_URI
       [(''operation'', ''UNINSTALL''), (''packageName'', ''f5-telemetry-1.4.0-1.noarch'')]]\<rparr>)
     (status_uri (id_key as3_response)) (Suc 0)"
  have a: "answer as3_device i = Inr as3_response" for i
    by (simp add: answer_def as3_device_def)
  have s: "status as3_response = ''FINISHED''" by (simp add: as3_response_def)
  have h1: "logger ?self = None" by (simp add: new_operation_client_def)
  have h2: "uninstall_rpm (client ?self) (get_package_name (metadata ?self)) = (Inr (), ?c')"
    using uninstall_rpm_finishes_at_once [OF a a s]
    by (simp add: new_operation_client_def ts_metadata_def)
  have h3: "(''as3'', \<lparr>versions = [], uninstallDocumentation = ''https://clouddocs.f5.com/as3''\<rparr>)
      \<in> set (get_component_dependencies (metadata ?self))"
    by (simp add: new_operation_client_def ts_metadata_def)
  have h4: "all_constraints_hold (\<lambda>v w op. False) (version ?self)
      \<lparr>versions = [], uninstallDocumentation = ''https://clouddocs.f5.com/as3''\<rparr>"
    by (simp add: all_constraints_hold_def)
  from uninstall_without_logger_raises [OF h1 h2 h3 h4]
  show ?thesis by (simp add: polled_def as3_device_def)
qed

text \<open>
  Claim C4 does not hold of the code. With a logger the claim is
  \<open>uninstall_with_logger\<close>: one warning for each dependent all of whose constraints
  hold, none for the others, and the result is the component and its version. Without a
  logger the warning call raises, and the result of \<^verbatim>\<open>uninstall\<close> is the error
  instead: here for \<^verbatim>\<open>as3\<close> 3.10.0, on which \<^verbatim>\<open>do\<close> depends with the constraint
  \<^verbatim>\<open>>= 3.0.0\<close>, for every comparison function under which this constraint holds.
\<close>

theorem advisory_warning_breaks_uninstall:
  assumes "compare_versions ''3.10.0'' ''3.0.0'' ''>=''"
  shows "fst (uninstall compare_versions
           (new_operation_client as3_device ''as3'' ''3.10.0'' as3_metadata None))
         = Inl AttributeError"
proof -
  let ?self = "new_operation_client as3_device ''as3'' ''3.10.0'' as3_metadata None"
  have a: "answer as3_device i = Inr as3_response" for i
    by (simp add: answer_def as3_device_def)
  have s: "status as3_response = ''FINISHED''" by (simp add: as3_response_def)
  obtain c' where "uninstall_rpm (client ?self) (get_package_name (metadata ?self)) = (Inr (), c')"
    using uninstall_rpm_finishes_at_once [OF a a s]
    by (simp add: new_operation_client_def)
  moreover have "check_dependencies compare_versions ''3.10.0'' None
      (get_component_dependencies as3_metadata) = (Inl AttributeError, None)"
    using assms by (simp add: check_dependencies_no_logger as3_metadata_def all_constraints_hold_def)
  ultimately show ?thesis
    by (simp add: uninstall_def check_for_dependency_def new_operation_client_def)
qed

text \<open>The same with a comparison that holds of every constraint.\<close>

theorem advisory_warning_breaks_uninstall_witness:
  "fst (uninstall (\<lambda>v w op. True)
          (new_operation_client as3_device ''as3'' ''3.10.0'' as3_metadata None))
     = Inl AttributeError"
  using advisory_warning_breaks_uninstall [of "\<lambda>v w op. True"] by simp
section \<open>Properties of the installed-state query\<close>

text \<open>
  Claim C10. The \<^verbatim>\<open>QUERY\<close> task was submitted and ran to its end, exactly one
  package of its response has a name that contains the package name of the component,
  and no substring of that name is matched by the pattern of the version number. Then
  \<^verbatim>\<open>is_installed\<close> raises \<^verbatim>\<open>AttributeError\<close> (the search returns
  \<^verbatim>\<open>None\<close>, and \<^verbatim>\<open>None.start()\<close> is called) and returns no result.
\<close>

theorem is_installed_raises_without_version:
  assumes "make_request (client self) query_request = (Inr r0, c1)"
    and "check_rpm_task_status c1 (id_key r0) = (Inr r, c2)"
    and "matching_packages (get_component_package_name (metadata self)) r = [p]"
    and "\<not> has_version_like (packageName p)"
  shows "is_installed self = (Inl AttributeError, self\<lparr>client := c2\<rparr>)"
proof -
  have g: "get_version_number_from_package_name (packageName p) = Inl AttributeError"
    using assms(4) get_version_raises_iff [of "packageName p"]
      has_version_like_def [of "packageName p"]
    by blast
  have e: "check_rpm_exists (client self) (get_component_package_name (metadata self))
     = (Inl AttributeError, c2)"
    unfolding check_rpm_exists_result [OF assms(1,2)] assms(3) using g by simp
  show ?thesis
    unfolding is_installed_def e by simp
qed

text \<open>The only package of the device is called \<^verbatim>\<open>f5-appsvcs\<close>.\<close>

theorem is_installed_raises_without_version_witness:
  "fst (is_installed (new_operation_client bare_as3_device ''as3'' ''3.10.0'' as3_metadata None))
     = Inl AttributeError"
proof -
  let ?self = "new_operation_client bare_as3_device ''as3'' ''3.10.0'' as3_metadata None"
  have a: "answer bare_as3_device i = Inr bare_as3_response" for i
    by (simp add: answer_def bare_as3_device_def)
  have s: "status bare_as3_response = ''FINISHED''" by (simp add: bare_as3_response_def)
  have c: "client ?self = bare_as3_device" by (simp add: new_operation_client_def)
  note q = query_finishes_at_once [OF a a s]
  have m: "matching_packages (get_component_package_name (metadata ?self)) bare_as3_response
      = [\<lparr>packageName = ''f5-appsvcs''\<rparr>]"
    by (simp add: matching_packages_def new_operation_client_def as3_metadata_def
        bare_as3_response_def)
  have "get_version_number_from_package_name ''f5-appsvcs'' = Inl AttributeError"
    by (simp add: get_version_number_from_package_name_def search_def version_number_pattern_def
        is_digit_def)
  then have "\<not> has_version_like ''f5-appsvcs''"
    using get_version_raises_iff [of "''f5-appsvcs''"] has_version_like_def [of "''f5-appsvcs''"]
    by blast
  then have n: "\<not> has_version_like (packageName \<lparr>packageName = ''f5-appsvcs''\<rparr>)"
    by simp
  have q1: "make_request (client ?self) query_request
      = (Inr bare_as3_response, bare_as3_device\<lparr>log := log bare_as3_device @ [query_request]\<rparr>)"
    using q(1) by (simp add: c)
  from is_installed_raises_without_version [OF q1 q(2) m n]
  show ?thesis by simp
qed

text \<open>
  Claim C5 does not hold of the code. Where no package or more than one matches, the
  result is not installed, with an empty version and the latest version of the metadata
  (\<open>is_installed_not_one_match\<close>); where exactly one matches and its name holds a
  version, the result is installed with that version (\<open>is_installed_one_match\<close>).
  But where exactly one matches and its name holds no version the method raises instead
  of returning: here the device lists \<^verbatim>\<open>f5-appsvcs-3-5.noarch\<close> and a package of
  another component.
\<close>

theorem single_match_without_version_raises:
  "fst (is_installed (new_operation_client versionless_device ''as3'' ''3.10.0'' as3_metadata None))
     = Inl AttributeError"
proof -
  let ?self = "new_operation_client versionless_device ''as3'' ''3.10.0'' as3_metadata None"
  have a: "answer versionless_device i = Inr versionless_response" for i
    by (simp add: answer_def versionless_device_def)
  have s: "status versionless_response = ''FINISHED''" by (simp add: versionless_response_def)
  note q = query_finishes_at_once [OF a a s]
  have "check_rpm_exists versionless_device ''f5-appsvcs''
      = (get_version_number_from_package_name ''f5-appsvcs-3-5.noarch'',
         polled (versionless_device\<lparr>log := log versionless_device @ [query_request]\<rparr>)
           (status_uri (id_key versionless_response)) (Suc 0))"
    by (simp add: check_rpm_exists_result [OF q] matching_packages_def versionless_response_def)
  moreover have "get_version_number_from_package_name ''f5-appsvcs-3-5.noarch'' = Inl AttributeError"
    by (simp add: get_version_number_from_package_name_def search_def version_number_pattern_def
        is_digit_def)
  ultimately show ?thesis
    by (simp add: is_installed_def new_operation_client_def as3_metadata_def)
qed

text \<open>
  Claim C8 does not hold of the code. The dots of the pattern are not escaped and match
  any character but the newline, so the version reported is \<open>version_like\<close>
  (\<open>installed_version_is_version_like\<close>) and need not have the form \<^verbatim>\<open>N.N.N\<close>:
  for the package \<^verbatim>\<open>f5-appsvcs-3.10-5.noarch\<close> the installed version reported is
  \<^verbatim>\<open>3.10-5\<close>.
\<close>

theorem installed_version_need_not_be_dotted:
  "fst (is_installed (new_operation_client short_version_device ''as3'' ''3.10.0'' as3_metadata None))
     = Inr \<lparr>installed = True, installed_version = ''3.10-5'', latest_version = ''3.10.0''\<rparr>
   \<and> \<not> dotted_version ''3.10-5''"
proof -
  have a: "answer short_version_device i = Inr short_version_response" for i
    by (simp add: answer_def short_version_device_def)
  have s: "status short_version_response = ''FINISHED''" by (simp add: short_version_response_def)
  note q = query_finishes_at_once [OF a a s]
  have "check_rpm_exists short_version_device ''f5-appsvcs''
      = (get_version_number_from_package_name ''f5-appsvcs-3.10-5.noarch'',
         polled (short_version_device\<lparr>log := log short_version_device @ [query_request]\<rparr>)
           (status_uri (id_key short_version_response)) (Suc 0))"
    by (simp add: check_rpm_exists_result [OF q] matching_packages_def short_version_response_def)
  moreover have "get_version_number_from_package_name ''f5-appsvcs-3.10-5.noarch'' = Inr ''3.10-5''"
    by (simp add: get_version_number_from_package_name_def search_def version_number_pattern_def
        is_digit_def)
  ultimately have 1: "fst (is_installed
      (new_operation_client short_version_device ''as3'' ''3.10.0'' as3_metadata None))
     = Inr \<lparr>installed = True, installed_version = ''3.10-5'', latest_version = ''3.10.0''\<rparr>"
    by (simp add: is_installed_def new_operation_client_def as3_metadata_def)
  have "\<not> list_all (\<lambda>ch. is_digit ch \<or> ch = CHR ''.'') ''3.10-5''"
    by (simp add: is_digit_def)
  then have 2: "\<not> dotted_version ''3.10-5''" using dotted_version_chars by blast
  from 1 2 show ?thesis by blast
qed

end
